theory Spec2Isabelle
  imports Complex_Main "HOL-Library.AList"
begin

section \<open>Data model\<close>

text \<open>
  Python exceptions are values: a handler returns \<open>Inl e\<close> where the source raises and
  \<open>Inr r\<close> where it returns the response \<open>r\<close>. \<open>ConnectionError\<close> stands for any failure
  that the transport raises to the caller of \<open>send\<close>.
\<close>

datatype error = AssertionError | KeyError | TypeError | ValueError | ConnectionError

text \<open>
  A version is what \<open>KVSetRequest.version\<close> returns, an \<open>Optional[int]\<close>: \<open>None\<close> when
  the message has no \<open>"ver"\<close> field. The source stores it unchecked as a dictionary key and
  in the clean tuple, so the stores hold optional integers as well.
\<close>

type_synonym version = "int option"

text \<open>
  A \<open>JsonMessage\<close> with the five fields the program reads or writes; \<open>None\<close> is an absent
  field (\<open>msg.get(f)\<close> is \<open>None\<close>, \<open>msg[f]\<close> raises \<open>KeyError\<close>).
\<close>

record JsonMessage =
  mtype :: "string option"
  mkey :: "string option"
  mval :: "string option"
  mver :: version
  mstatus :: "string option"

definition empty_msg :: JsonMessage where
  "empty_msg = \<lparr>mtype = None, mkey = None, mval = None, mver = None, mstatus = None\<rparr>"

datatype RequestType = SET | GET | QUERY

fun RequestType_name :: "RequestType \<Rightarrow> string" where
  "RequestType_name SET = ''SET''"
| "RequestType_name GET = ''GET''"
| "RequestType_name QUERY = ''QUERY''"

text \<open>The responses and the version query that the handlers build.\<close>

definition ok_msg :: JsonMessage where
  "ok_msg = empty_msg\<lparr>mstatus := Some ''OK''\<rparr>"

definition ok_val_msg :: "string \<Rightarrow> JsonMessage" where
  "ok_val_msg v = empty_msg\<lparr>mstatus := Some ''OK'', mval := Some v\<rparr>"

definition key_not_found_msg :: JsonMessage where
  "key_not_found_msg = empty_msg\<lparr>mstatus := Some ''Key not found''\<rparr>"

definition unexpected_type_msg :: JsonMessage where
  "unexpected_type_msg = empty_msg\<lparr>mstatus := Some ''Unexpected type''\<rparr>"

definition ver_msg :: "version \<Rightarrow> JsonMessage" where
  "ver_msg v = empty_msg\<lparr>mver := v\<rparr>"

definition query_msg :: "string \<Rightarrow> JsonMessage" where
  "query_msg k = empty_msg\<lparr>mtype := Some (RequestType_name QUERY), mkey := Some k\<rparr>"

subsection \<open>Request wrappers\<close>

text \<open>
  Each request class wraps the message. Its constructor asserts the required fields; its
  properties index the message, which raises \<open>KeyError\<close> on an absent field.
\<close>

definition msg_index_key :: "JsonMessage \<Rightarrow> error + string" where
  "msg_index_key m = (case mkey m of None \<Rightarrow> Inl KeyError | Some k \<Rightarrow> Inr k)"

definition msg_index_val :: "JsonMessage \<Rightarrow> error + string" where
  "msg_index_val m = (case mval m of None \<Rightarrow> Inl KeyError | Some v \<Rightarrow> Inr v)"

datatype KVGetRequest = KVGetRequest (get_json_msg: JsonMessage)

definition KVGetRequest_init :: "JsonMessage \<Rightarrow> error + KVGetRequest" where
  "KVGetRequest_init msg = (if mkey msg = None then Inl AssertionError else Inr (KVGetRequest msg))"

definition KVGetRequest_key :: "KVGetRequest \<Rightarrow> error + string" where
  "KVGetRequest_key req = msg_index_key (get_json_msg req)"

datatype KVQueryRequest = KVQueryRequest (query_json_msg: JsonMessage)

definition KVQueryRequest_init :: "JsonMessage \<Rightarrow> error + KVQueryRequest" where
  "KVQueryRequest_init msg =
     (if mkey msg = None then Inl AssertionError else Inr (KVQueryRequest msg))"

definition KVQueryRequest_key :: "KVQueryRequest \<Rightarrow> error + string" where
  "KVQueryRequest_key req = msg_index_key (query_json_msg req)"

datatype KVSetRequest = KVSetRequest (set_json_msg: JsonMessage)

definition KVSetRequest_init :: "JsonMessage \<Rightarrow> error + KVSetRequest" where
  "KVSetRequest_init msg =
     (if mkey msg = None then Inl AssertionError
      else if mval msg = None then Inl AssertionError
      else Inr (KVSetRequest msg))"

definition KVSetRequest_key :: "KVSetRequest \<Rightarrow> error + string" where
  "KVSetRequest_key req = msg_index_key (set_json_msg req)"

definition KVSetRequest_val :: "KVSetRequest \<Rightarrow> error + string" where
  "KVSetRequest_val req = msg_index_val (set_json_msg req)"

definition KVSetRequest_version :: "KVSetRequest \<Rightarrow> version" where
  "KVSetRequest_version req = mver (set_json_msg req)"

definition KVSetRequest_set_version :: "KVSetRequest \<Rightarrow> int \<Rightarrow> KVSetRequest" where
  "KVSetRequest_set_version req v = KVSetRequest ((set_json_msg req)\<lparr>mver := Some v\<rparr>)"

subsection \<open>The replica\<close>

text \<open>
  A Python \<open>dict\<close> is an association list in insertion order: \<open>k in d\<close> is
  \<open>map_of d k \<noteq> None\<close>, \<open>d[k] = v\<close> is \<open>AList.update k v d\<close>, \<open>del d[k]\<close> is
  \<open>AList.delete k d\<close>, and a dictionary is falsy when it is \<open>[]\<close>.
  \<open>temp_store\<close> is the dirty map and \<open>store\<close> the clean map. The per-key locks are not
  part of the state: a handler runs to its end before the next one starts on the replica.
\<close>

type_synonym versions_dict = "(version \<times> string) list"

record CraqServer =
  name :: string
  "next" :: "string option"
  prev :: "string option"
  tail :: string
  temp_store :: "(string \<times> versions_dict) list"
  store :: "(string \<times> (version \<times> string)) list"

definition CraqServer_init ::
  "string \<Rightarrow> string option \<Rightarrow> string option \<Rightarrow> string \<Rightarrow> CraqServer" where
  "CraqServer_init info nxt prv tail_name =
     \<lparr>name = info, next = nxt, prev = prv, tail = tail_name, temp_store = [], store = []\<rparr>"

text \<open>
  \<open>ConnectionStub.send(from_, to, message)\<close> is not part of the sources at hand. It is a
  parameter of every handler: a function of the sender, the recipient, the message and the
  state \<open>'n\<close> of everything downstream, giving the response (or the failure raised to the
  handler) and the new downstream state.
\<close>

type_synonym 'n send =
  "string \<Rightarrow> string option \<Rightarrow> JsonMessage \<Rightarrow> 'n \<Rightarrow> (error + JsonMessage) \<times> 'n"

type_synonym 'n outcome = "(error + JsonMessage) \<times> CraqServer \<times> 'n"

text \<open>\<open>self.temp_store[k]\<close> where the source has checked or ensured that \<open>k\<close> is present.\<close>

definition versions_of :: "(string \<times> versions_dict) list \<Rightarrow> string \<Rightarrow> versions_dict" where
  "versions_of ts k = (case map_of ts k of None \<Rightarrow> [] | Some d \<Rightarrow> d)"

text \<open>\<open>req.key in self.temp_store and self.temp_store[req.key]\<close>\<close>

definition has_dirty :: "CraqServer \<Rightarrow> string \<Rightarrow> bool" where
  "has_dirty s k = (case map_of (temp_store s) k of None \<Rightarrow> False | Some d \<Rightarrow> d \<noteq> [])"

section \<open>Handlers\<close>

subsection \<open>GET\<close>

definition CraqServer_get :: "'n send \<Rightarrow> KVGetRequest \<Rightarrow> CraqServer \<Rightarrow> 'n \<Rightarrow> 'n outcome" where
  "CraqServer_get send req s n =
     (case KVGetRequest_key req of
        Inl e \<Rightarrow> (Inl e, s, n)
      | Inr k \<Rightarrow>
          if has_dirty s k then
            (case send (name s) (next s) (query_msg k) n of
               (Inl e, n') \<Rightarrow> (Inl e, s, n')
             | (Inr response, n') \<Rightarrow>
                 (let tail_committed_version = mver response;
                      temp_versions_dict = versions_of (temp_store s) k
                  in case map_of temp_versions_dict tail_committed_version of
                       Some v \<Rightarrow> (Inr (ok_val_msg v), s, n')
                     | None \<Rightarrow>
                         (case map_of (store s) k of
                            Some (_, v) \<Rightarrow> (Inr (ok_val_msg v), s, n')
                          | None \<Rightarrow> (Inr key_not_found_msg, s, n'))))
          else
            (case map_of (store s) k of
               Some (_, v) \<Rightarrow> (Inr (ok_val_msg v), s, n)
             | None \<Rightarrow> (Inr key_not_found_msg, s, n)))"

subsection \<open>QUERY\<close>

definition CraqServer_query ::
  "'n send \<Rightarrow> KVQueryRequest \<Rightarrow> CraqServer \<Rightarrow> 'n \<Rightarrow> 'n outcome" where
  "CraqServer_query send req s n =
     (case KVQueryRequest_key req of
        Inl e \<Rightarrow> (Inl e, s, n)
      | Inr k \<Rightarrow>
          if next s = None then
            (case map_of (store s) k of
               None \<Rightarrow> (Inl KeyError, s, n)
             | Some (ver, _) \<Rightarrow> (Inr (ver_msg ver), s, n))
          else
            (case send (name s) (next s) (query_json_msg req) n of
               (r, n') \<Rightarrow> (r, s, n')))"

subsection \<open>SET\<close>

text \<open>
  Python's \<open>max\<close> over the keys of a dictionary: it keeps the first key and replaces it by
  each later key that compares greater. Comparing with \<open>None\<close> raises \<open>TypeError\<close>; an
  empty argument raises \<open>ValueError\<close>.
\<close>

fun max_from :: "version \<Rightarrow> version list \<Rightarrow> error + version" where
  "max_from b [] = Inr b"
| "max_from b (x # xs) =
     (case (x, b) of
        (Some i, Some j) \<Rightarrow> max_from (if i > j then x else b) xs
      | _ \<Rightarrow> Inl TypeError)"

definition py_max :: "version list \<Rightarrow> error + version" where
  "py_max vs = (case vs of [] \<Rightarrow> Inl ValueError | x # xs \<Rightarrow> max_from x xs)"

text \<open>Lines 141 to 146: the head reads the current version of the key.\<close>

definition current_version :: "CraqServer \<Rightarrow> string \<Rightarrow> error + version" where
  "current_version s k =
     (if has_dirty s k then py_max (map fst (versions_of (temp_store s) k))
      else (case map_of (store s) k of
              Some (ver, _) \<Rightarrow> Inr ver
            | None \<Rightarrow> Inr (Some 0)))"

text \<open>
  Lines 140 to 147: a replica without predecessor stamps the request with
  \<open>current_version + 1\<close> (\<open>TypeError\<close> when the current version is \<open>None\<close>); any other
  replica leaves the request as it came.
\<close>

definition assign_version :: "CraqServer \<Rightarrow> KVSetRequest \<Rightarrow> string \<Rightarrow> error + KVSetRequest" where
  "assign_version s req k =
     (if prev s = None then
        (case current_version s k of
           Inl e \<Rightarrow> Inl e
         | Inr None \<Rightarrow> Inl TypeError
         | Inr (Some c) \<Rightarrow> Inr (KVSetRequest_set_version req (c + 1)))
      else Inr req)"

text \<open>
  Lines 150 to 152: \<open>self.temp_store[k][ver] = v\<close>, after an empty dictionary has been
  stored for a key that has none. Line 155: \<open>del self.temp_store[k][ver]\<close>, on the entry
  that line 152 wrote, so the deletion finds its key.
\<close>

definition dirty_put ::
  "string \<Rightarrow> version \<Rightarrow> string \<Rightarrow> (string \<times> versions_dict) list \<Rightarrow> (string \<times> versions_dict) list" where
  "dirty_put k ver v ts =
     (let ts1 = (if map_of ts k = None then AList.update k [] ts else ts)
      in AList.update k (AList.update ver v (versions_of ts1 k)) ts1)"

definition dirty_del ::
  "string \<Rightarrow> version \<Rightarrow> (string \<times> versions_dict) list \<Rightarrow> (string \<times> versions_dict) list" where
  "dirty_del k ver ts = AList.update k (AList.delete ver (versions_of ts k)) ts"

definition CraqServer_set :: "'n send \<Rightarrow> KVSetRequest \<Rightarrow> CraqServer \<Rightarrow> 'n \<Rightarrow> 'n outcome" where
  "CraqServer_set send rq s n =
     (case KVSetRequest_key rq of
        Inl e \<Rightarrow> (Inl e, s, n)
      | Inr k \<Rightarrow>
     (case KVSetRequest_val rq of
        Inl e \<Rightarrow> (Inl e, s, n)
      | Inr v \<Rightarrow>
     (case assign_version s rq k of
        Inl e \<Rightarrow> (Inl e, s, n)
      | Inr req \<Rightarrow>
          (let version = KVSetRequest_version req in
           if next s \<noteq> None then
             (let s1 = s\<lparr>temp_store := dirty_put k version v (temp_store s)\<rparr>
              in case send (name s) (next s) (set_json_msg req) n of
                   (Inl e, n') \<Rightarrow> (Inl e, s1, n')
                 | (Inr _, n') \<Rightarrow>
                     (Inr ok_msg,
                      s1\<lparr>store := AList.update k (version, v) (store s1),
                         temp_store := dirty_del k version (temp_store s1)\<rparr>,
                      n'))
           else (Inr ok_msg, s\<lparr>store := AList.update k (version, v) (store s)\<rparr>, n)))))"

subsection \<open>Dispatcher\<close>

definition CraqServer_process_req ::
  "'n send \<Rightarrow> JsonMessage \<Rightarrow> CraqServer \<Rightarrow> 'n \<Rightarrow> 'n outcome" where
  "CraqServer_process_req send msg s n =
     (if mtype msg = Some (RequestType_name GET) then
        (case KVGetRequest_init msg of
           Inl e \<Rightarrow> (Inl e, s, n)
         | Inr req \<Rightarrow> CraqServer_get send req s n)
      else if mtype msg = Some (RequestType_name SET) then
        (case KVSetRequest_init msg of
           Inl e \<Rightarrow> (Inl e, s, n)
         | Inr req \<Rightarrow> CraqServer_set send req s n)
      else if mtype msg = Some (RequestType_name QUERY) then
        (case KVQueryRequest_init msg of
           Inl e \<Rightarrow> (Inl e, s, n)
         | Inr req \<Rightarrow> CraqServer_query send req s n)
      else (Inr unexpected_type_msg, s, n))"

text \<open>The replica and the downstream state that an outcome carries.\<close>

definition response_of :: "'n outcome \<Rightarrow> error + JsonMessage" where
  "response_of out = fst out"

definition server_of :: "'n outcome \<Rightarrow> CraqServer" where
  "server_of out = fst (snd out)"

definition downstream_of :: "'n outcome \<Rightarrow> 'n" where
  "downstream_of out = snd (snd out)"

text \<open>A replica that handles the messages of a list one after the other.\<close>

fun serve :: "'n send \<Rightarrow> JsonMessage list \<Rightarrow> CraqServer \<Rightarrow> 'n \<Rightarrow> CraqServer \<times> 'n" where
  "serve send [] s n = (s, n)"
| "serve send (msg # msgs) s n =
     (case CraqServer_process_req send msg s n of (_, s', n') \<Rightarrow> serve send msgs s' n')"

section \<open>The chain\<close>

text \<open>
  \<open>CraqCluster\<close> builds four replicas \<open>a\<close>, \<open>b\<close>, \<open>c\<close>, \<open>d\<close> from its \<open>next\<close> and
  \<open>prev\<close> tables, with \<open>d\<close> as the tail.
\<close>

definition CraqCluster_next :: "string \<Rightarrow> string option" where
  "CraqCluster_next si =
     (if si = ''a'' then Some ''b'' else if si = ''b'' then Some ''c''
      else if si = ''c'' then Some ''d'' else None)"

definition CraqCluster_prev :: "string \<Rightarrow> string option" where
  "CraqCluster_prev si =
     (if si = ''b'' then Some ''a'' else if si = ''c'' then Some ''b''
      else if si = ''d'' then Some ''c'' else None)"

definition CraqCluster_create_server :: "string \<Rightarrow> CraqServer" where
  "CraqCluster_create_server si =
     CraqServer_init si (CraqCluster_next si) (CraqCluster_prev si) ''d''"

definition CraqCluster_chain :: "CraqServer list" where
  "CraqCluster_chain = map CraqCluster_create_server [''a'', ''b'', ''c'', ''d'']"

text \<open>
  Modelled from the spec: \<open>ConnectionStub.send(from, to, message)\<close>, a synchronous
  request and response to a named peer, whose code is not part of the sources at hand.
  A chain is the list of its replicas from the one that receives the request to the tail.
  What a replica sends to \<open>next\<close> is dispatched by the replica that follows it, and what
  that replica raises is raised by \<open>send\<close>; sending past the end of the chain fails.
  A handler forwards at most once, and nothing else runs in between, so the replicas
  after \<open>s\<close> are in the state \<open>rest\<close> when the forward reaches them.
\<close>

fun chain_req :: "CraqServer list \<Rightarrow> JsonMessage \<Rightarrow> (error + JsonMessage) \<times> CraqServer list" where
  "chain_req [] msg = (Inl ConnectionError, [])"
| "chain_req (s # rest) msg =
     (case CraqServer_process_req (\<lambda>sender to m _. chain_req rest m) msg s rest of
        (r, s', rest') \<Rightarrow> (r, s' # rest'))"

text \<open>
  The links of a chain as \<open>CraqCluster.create_server\<close> sets them: every replica but the
  last names its successor, every replica but the first names its predecessor.
\<close>

fun linked :: "CraqServer list \<Rightarrow> bool" where
  "linked [] = False"
| "linked [s] = (next s = None)"
| "linked (s # t # rest) =
     (next s = Some (name t) \<and> prev t = Some (name s) \<and> linked (t # rest))"

definition chain_wf :: "CraqServer list \<Rightarrow> bool" where
  "chain_wf chain = (case chain of [] \<Rightarrow> False | s # rest \<Rightarrow> prev s = None \<and> linked chain)"

text \<open>The messages that \<open>CraqClient.set\<close> and \<open>CraqClient.get\<close> send.\<close>

definition client_set_msg :: "string \<Rightarrow> string \<Rightarrow> JsonMessage" where
  "client_set_msg k v = empty_msg\<lparr>mtype := Some ''SET'', mkey := Some k, mval := Some v\<rparr>"

definition client_get_msg :: "string \<Rightarrow> JsonMessage" where
  "client_get_msg k = empty_msg\<lparr>mtype := Some ''GET'', mkey := Some k\<rparr>"

section \<open>Properties named by the specification\<close>

text \<open>
  The version the specification assigns at the head: the maximum over the dirty versions
  of the key and its clean version, where a missing clean version counts as 0.
\<close>

definition dirty_versions :: "CraqServer \<Rightarrow> string \<Rightarrow> int list" where
  "dirty_versions s k =
     concat (map (\<lambda>(ver, _). case ver of None \<Rightarrow> [] | Some i \<Rightarrow> [i])
                 (versions_of (temp_store s) k))"

definition clean_version_or_0 :: "CraqServer \<Rightarrow> string \<Rightarrow> int" where
  "clean_version_or_0 s k = (case map_of (store s) k of Some (Some cv, _) \<Rightarrow> cv | _ \<Rightarrow> 0)"

definition spec_current :: "CraqServer \<Rightarrow> string \<Rightarrow> int" where
  "spec_current s k = Max (set (dirty_versions s k) \<union> {clean_version_or_0 s k})"

text \<open>
  The invariant of the specification: where a key has a clean entry, each of its dirty
  versions is strictly greater than the clean version. Only integers compare.
\<close>

definition ver_less :: "version \<Rightarrow> version \<Rightarrow> bool" where
  "ver_less a b = (case (a, b) of (Some i, Some j) \<Rightarrow> i < j | _ \<Rightarrow> False)"

definition dirty_above_clean_at :: "CraqServer \<Rightarrow> string \<Rightarrow> bool" where
  "dirty_above_clean_at s k =
     (case map_of (store s) k of
        None \<Rightarrow> True
      | Some (cv, _) \<Rightarrow> list_all (\<lambda>(dv, _). ver_less cv dv) (versions_of (temp_store s) k))"

definition dirty_above_clean :: "CraqServer \<Rightarrow> bool" where
  "dirty_above_clean s = list_all (\<lambda>(k, _). dirty_above_clean_at s k) (store s)"

section \<open>Transports used in the examples\<close>

text \<open>A peer that answers every message with \<open>r\<close>, and a transport that raises \<open>e\<close>.\<close>

definition send_reply :: "JsonMessage \<Rightarrow> unit send" where
  "send_reply r = (\<lambda>sender to m n. (Inr r, n))"

definition send_fail :: "error \<Rightarrow> unit send" where
  "send_fail e = (\<lambda>sender to m n. (Inl e, n))"

text \<open>A peer that answers \<open>r\<close> and records what it was sent, by whom and for whom.\<close>

definition send_log :: "JsonMessage \<Rightarrow> (string \<times> string option \<times> JsonMessage) list send" where
  "send_log r = (\<lambda>sender to m n. (Inr r, n @ [(sender, to, m)]))"

text \<open>
  The head after a write whose forward failed, and after a second write whose forward
  returned: both states are reached from the initial one.
\<close>

definition head_after_failed_set :: CraqServer where
  "head_after_failed_set =
     server_of (CraqServer_set (send_fail ConnectionError)
       (KVSetRequest (client_set_msg ''k'' ''x'')) (CraqCluster_create_server ''a'') ())"

definition head_with_orphan :: CraqServer where
  "head_with_orphan =
     server_of (CraqServer_set (send_reply ok_msg)
       (KVSetRequest (client_set_msg ''k'' ''y'')) head_after_failed_set ())"

text \<open>
  The head after a write that returned and a write whose forward failed: it holds a clean
  version and a greater dirty version.
\<close>

definition head_clean_and_dirty :: CraqServer where
  "head_clean_and_dirty =
     server_of (CraqServer_set (send_fail ConnectionError)
       (KVSetRequest (client_set_msg ''k'' ''b''))
       (server_of (CraqServer_set (send_reply ok_msg)
          (KVSetRequest (client_set_msg ''k'' ''a'')) (CraqCluster_create_server ''a'') ())) ())"

text \<open>
  The replica \<open>b\<close> after the write of \<open>y\<close> at version 2 has gone through it, and then
  after the head has sent the next write \<open>z\<close> under the same version 2 and the forward
  from \<open>b\<close> has failed.
\<close>

definition interior_committed :: CraqServer where
  "interior_committed =
     server_of (CraqServer_process_req (send_reply ok_msg)
       ((client_set_msg ''k'' ''y'')\<lparr>mver := Some 2\<rparr>) (CraqCluster_create_server ''b'') ())"

definition interior_after_reuse :: CraqServer where
  "interior_after_reuse =
     server_of (CraqServer_process_req (send_fail ConnectionError)
       ((client_set_msg ''k'' ''z'')\<lparr>mver := Some 2\<rparr>) interior_committed ())"

text \<open>
  The replica after a write of the value \<open>v\<close> at the version \<open>ver\<close> of the key \<open>k\<close> has
  gone through it: what lines 152 to 155, or line 158 at the tail, leave behind.
\<close>

definition committed :: "string \<Rightarrow> version \<Rightarrow> string \<Rightarrow> CraqServer \<Rightarrow> CraqServer" where
  "committed k ver v s =
     (if next s \<noteq> None then
        s\<lparr>temp_store := dirty_del k ver (dirty_put k ver v (temp_store s)),
          store := AList.update k (ver, v) (store s)\<rparr>
      else s\<lparr>store := AList.update k (ver, v) (store s)\<rparr>)"

text \<open>The chain of \<open>CraqCluster\<close> whose head has seen one forward fail.\<close>

definition chain_with_orphan :: "CraqServer list" where
  "chain_with_orphan =
     head_after_failed_set # map CraqCluster_create_server [''b'', ''c'', ''d'']"

section \<open>The client\<close>

text \<open>
  The response-time estimates of \<open>CraqClient\<close> are Python floats. A float is a value of a
  type \<open>'t\<close> with a linear order, which the order of the floats is on the values that are
  not NaN; no estimate is NaN, since the estimates start at \<open>0.0\<close> and are sums of products
  of measured times. The float literals of the source and float multiplication and
  addition are the fields of \<open>float_ops\<close>, so that nothing is assumed about how they round.
\<close>

record 't float_ops =
  f_zero :: 't
  f_03 :: 't
  f_07 :: 't
  f_mul :: "'t \<Rightarrow> 't \<Rightarrow> 't"
  f_add :: "'t \<Rightarrow> 't \<Rightarrow> 't"

text \<open>
  \<open>CraqClient\<close> holds one connection per replica, of a type \<open>'c\<close>, and a dictionary from
  each connection to its estimate.
\<close>

record ('c, 't) CraqClient =
  conns :: "'c list"
  response_times :: "('c \<times> 't) list"

definition CraqClient_init :: "'t float_ops \<Rightarrow> 'c list \<Rightarrow> ('c, 't) CraqClient" where
  "CraqClient_init fl cs =
     \<lparr>conns = cs, response_times = foldl (\<lambda>d conn. AList.update conn (f_zero fl) d) [] cs\<rparr>"

text \<open>
  Python's \<open>min\<close> with a key function over the dictionary: it keeps the first connection
  and replaces it by each later one whose estimate is strictly smaller.
\<close>

fun least_from :: "'c \<times> 't::linorder \<Rightarrow> ('c \<times> 't) list \<Rightarrow> 'c \<times> 't" where
  "least_from b [] = b"
| "least_from b (x # xs) = least_from (if snd x < snd b then x else b) xs"

definition CraqClient_get_least_loaded_server ::
  "('c, 't::linorder) CraqClient \<Rightarrow> error + 'c" where
  "CraqClient_get_least_loaded_server cl =
     (case response_times cl of
        [] \<Rightarrow> Inl ValueError
      | x # xs \<Rightarrow> Inr (fst (least_from x xs)))"

text \<open>
  \<open>TcpClient.send\<close> and the clock are parameters of \<open>get\<close>: what the connection answers
  to a message (\<open>None\<close> is Python's \<open>None\<close>), and the time measured around the call.
  Line 36 is \<open>elapsed_time * 0.3 + self.response_times[server] * 0.7\<close>.
\<close>

definition CraqClient_get ::
  "'t float_ops \<Rightarrow> ('c \<Rightarrow> JsonMessage \<Rightarrow> error + JsonMessage option) \<Rightarrow> 't \<Rightarrow>
     ('c, 't::linorder) CraqClient \<Rightarrow> string
     \<Rightarrow> (error + bool \<times> string option) \<times> ('c, 't) CraqClient" where
  "CraqClient_get fl send elapsed_time cl k =
     (case CraqClient_get_least_loaded_server cl of
        Inl e \<Rightarrow> (Inl e, cl)
      | Inr server \<Rightarrow>
          (case send server (client_get_msg k) of
             Inl e \<Rightarrow> (Inl e, cl)
           | Inr None \<Rightarrow> (Inl AssertionError, cl)
           | Inr (Some response) \<Rightarrow>
               (case map_of (response_times cl) server of
                  None \<Rightarrow> (Inl KeyError, cl)
                | Some previous \<Rightarrow>
                    (let cl' = cl\<lparr>response_times :=
                           AList.update server
                             (f_add fl (f_mul fl elapsed_time (f_03 fl))
                                       (f_mul fl previous (f_07 fl)))
                             (response_times cl)\<rparr>
                     in case mstatus response of
                          None \<Rightarrow> (Inl KeyError, cl')
                        | Some st \<Rightarrow>
                            if st = ''OK'' then
                              (case mval response of
                                 None \<Rightarrow> (Inl KeyError, cl')
                               | Some v \<Rightarrow> (Inr (True, Some v), cl'))
                            else (Inr (False, None), cl')))))"

text \<open>
  The doubles nearest to 0.3 and to 0.7, as fractions, with exact multiplication and
  addition. Float arithmetic is exact where a factor is 0 or a power of two and a summand
  is 0, which is all that the example below computes.
\<close>

definition exact_ops :: "rat float_ops" where
  "exact_ops =
     \<lparr>f_zero = 0,
      f_03 = 5404319552844595 / 18014398509481984,
      f_07 = 3152519739159347 / 4503599627370496,
      f_mul = (*), f_add = (+)\<rparr>"

text \<open>An answering connection, and the client of four replicas after one read of 2 seconds.\<close>

definition send_ok_val :: "string \<Rightarrow> string \<Rightarrow> JsonMessage \<Rightarrow> error + JsonMessage option" where
  "send_ok_val v = (\<lambda>c m. Inr (Some (ok_val_msg v)))"

definition client_after_read :: "(string, rat) CraqClient" where
  "client_after_read =
     snd (CraqClient_get exact_ops (send_ok_val ''v'') 2
            (CraqClient_init exact_ops [''a'', ''b'', ''c'', ''d'']) ''k'')"

section \<open>Facts about the handlers\<close>

lemma has_dirty_iff: "has_dirty s k = (versions_of (temp_store s) k \<noteq> [])"
  by (simp add: has_dirty_def versions_of_def split: option.splits)

lemma versions_of_update:
  "versions_of (AList.update k d ts) k' = (if k' = k then d else versions_of ts k')"
  by (simp add: versions_of_def update_conv')

lemma versions_of_dirty_put:
  "versions_of (dirty_put k ver v ts) k' =
     (if k' = k then AList.update ver v (versions_of ts k) else versions_of ts k')"
  by (simp add: dirty_put_def Let_def versions_of_update) (simp add: versions_of_def)

lemma versions_of_dirty_del:
  "versions_of (dirty_del k ver ts) k' =
     (if k' = k then AList.delete ver (versions_of ts k) else versions_of ts k')"
  by (simp add: dirty_del_def versions_of_update)

lemma set_key_val:
  "mkey (set_json_msg req) = Some k \<Longrightarrow> KVSetRequest_key req = Inr k"
  "mval (set_json_msg req) = Some v \<Longrightarrow> KVSetRequest_val req = Inr v"
  by (simp_all add: KVSetRequest_key_def KVSetRequest_val_def msg_index_key_def msg_index_val_def)

text \<open>The outcome of a SET whose request passed the version assignment.\<close>

lemma set_outcome_forward:
  assumes "mkey (set_json_msg rq) = Some k" and "mval (set_json_msg rq) = Some v"
    and "assign_version s rq k = Inr req" and "next s \<noteq> None"
    and "send (name s) (next s) (set_json_msg req) n = (res, n')"
  shows "CraqServer_set send rq s n =
    (case res of
       Inl e \<Rightarrow> (Inl e, s\<lparr>temp_store := dirty_put k (KVSetRequest_version req) v (temp_store s)\<rparr>, n')
     | Inr r \<Rightarrow> (Inr ok_msg,
         s\<lparr>temp_store := dirty_del k (KVSetRequest_version req)
                            (dirty_put k (KVSetRequest_version req) v (temp_store s)),
           store := AList.update k (KVSetRequest_version req, v) (store s)\<rparr>, n'))"
  using assms by (simp add: CraqServer_set_def set_key_val Let_def split: sum.splits)

lemma set_outcome_tail:
  assumes "mkey (set_json_msg rq) = Some k" and "mval (set_json_msg rq) = Some v"
    and "assign_version s rq k = Inr req" and "next s = None"
  shows "CraqServer_set send rq s n =
    (Inr ok_msg, s\<lparr>store := AList.update k (KVSetRequest_version req, v) (store s)\<rparr>, n)"
  using assms by (simp add: CraqServer_set_def set_key_val Let_def)

text \<open>A replica answers a SET with OK or not at all.\<close>

lemma set_response_is_ok:
  assumes "mtype msg = Some ''SET''"
    and "response_of (CraqServer_process_req send msg s n) = Inr r"
  shows "r = ok_msg"
  using assms
  by (auto simp add: CraqServer_process_req_def CraqServer_set_def response_of_def Let_def
      split: sum.splits prod.splits if_splits)

lemma get_frame: "server_of (CraqServer_get send req s n) = s"
  by (simp add: CraqServer_get_def server_of_def Let_def split: sum.splits prod.splits option.splits)

lemma query_frame: "server_of (CraqServer_query send req s n) = s"
  by (simp add: CraqServer_query_def server_of_def Let_def split: sum.splits prod.splits option.splits)

lemma set_tail_temp_store:
  "next s = None \<Longrightarrow> temp_store (server_of (CraqServer_set send req s n)) = temp_store s"
  by (simp add: CraqServer_set_def server_of_def Let_def split: sum.splits)

lemma process_req_tail_temp_store:
  "next s = None \<Longrightarrow> temp_store (server_of (CraqServer_process_req send msg s n)) = temp_store s"
  by (auto simp add: CraqServer_process_req_def get_frame query_frame set_tail_temp_store
      split: sum.splits) (simp_all add: server_of_def)

lemma process_req_links:
  "next (server_of (CraqServer_process_req send msg s n)) = next s"
  by (auto simp add: CraqServer_process_req_def get_frame query_frame CraqServer_set_def Let_def
      split: sum.splits prod.splits) (simp_all add: server_of_def)

lemma serve_tail_temp_store:
  "next s = None \<Longrightarrow> temp_store (fst (serve send msgs s n)) = temp_store s"
proof (induction msgs arbitrary: s n)
  case Nil
  then show ?case by simp
next
  case (Cons msg msgs)
  obtain r s' n' where out: "CraqServer_process_req send msg s n = (r, s', n')"
    by (cases "CraqServer_process_req send msg s n") auto
  have "next s' = None"
    using process_req_links[of send msg s n] Cons.prems by (simp add: out server_of_def)
  moreover have "temp_store s' = temp_store s"
    using process_req_tail_temp_store[of s send msg n] Cons.prems by (simp add: out server_of_def)
  ultimately show ?case using Cons.IH[of s' n'] by (simp add: out)
qed

lemma max_from_Some: "max_from (Some b) (map Some xs) = Inr (Some (fold max xs b))"
  by (induction xs arbitrary: b) (auto simp add: max_def)

lemma py_max_Some:
  assumes "xs \<noteq> []"
  shows "py_max (map Some xs) = Inr (Some (Max (set xs)))"
proof (cases xs)
  case Nil
  then show ?thesis using assms by simp
next
  case (Cons a list)
  have "Max (set (a # list)) = fold max list a" by (rule Max.set_eq_fold)
  then show ?thesis using Cons by (simp add: py_max_def max_from_Some)
qed

lemma int_keys:
  "None \<notin> fst ` set d \<Longrightarrow>
   map fst d = map Some (concat (map (\<lambda>(ver, _). case ver of None \<Rightarrow> [] | Some i \<Rightarrow> [i]) d))"
  by (induction d) (auto split: option.splits)

lemma current_version_dirty:
  assumes "has_dirty s k" and "None \<notin> fst ` set (versions_of (temp_store s) k)"
  shows "current_version s k = Inr (Some (Max (set (dirty_versions s k))))"
    and "dirty_versions s k \<noteq> []"
proof -
  let ?d = "versions_of (temp_store s) k"
  have ne: "?d \<noteq> []" using assms(1) by (simp add: has_dirty_iff)
  have keys: "map fst ?d = map Some (dirty_versions s k)"
    using int_keys[OF assms(2)] by (simp add: dirty_versions_def)
  show dv: "dirty_versions s k \<noteq> []"
    using ne keys by (cases ?d) auto
  show "current_version s k = Inr (Some (Max (set (dirty_versions s k))))"
    using assms(1) dv by (simp add: current_version_def keys py_max_Some)
qed

lemma current_version_clean:
  assumes "\<not> has_dirty s k" and "\<forall>v. map_of (store s) k \<noteq> Some (None, v)"
  shows "current_version s k = Inr (Some (clean_version_or_0 s k))"
  using assms by (auto simp add: current_version_def clean_version_or_0_def split: option.splits)

lemma dirty_above_clean_iff: "dirty_above_clean s = (\<forall>k. dirty_above_clean_at s k)"
proof
  assume a: "dirty_above_clean s"
  show "\<forall>k. dirty_above_clean_at s k"
  proof
    fix k
    show "dirty_above_clean_at s k"
    proof (cases "map_of (store s) k")
      case None
      then show ?thesis by (simp add: dirty_above_clean_at_def)
    next
      case (Some e)
      then have "(k, e) \<in> set (store s)" by (rule map_of_SomeD)
      then show ?thesis using a by (auto simp add: dirty_above_clean_def list_all_iff)
    qed
  qed
next
  assume "\<forall>k. dirty_above_clean_at s k"
  then show "dirty_above_clean s" by (simp add: dirty_above_clean_def list_all_iff split_beta)
qed

lemma ver_less_succ: "ver_less (Some c) (Some (c + 1))"
  by (simp add: ver_less_def)

lemma set_version_ver: "KVSetRequest_version (KVSetRequest_set_version req c) = Some c"
  by (simp add: KVSetRequest_version_def KVSetRequest_set_version_def)

lemma dirty_above_clean_at_cong:
  assumes "map_of (store s') k = map_of (store s) k"
    and "versions_of (temp_store s') k = versions_of (temp_store s) k"
  shows "dirty_above_clean_at s' k = dirty_above_clean_at s k"
  using assms by (simp add: dirty_above_clean_at_def split: option.splits)

lemma dirty_above_clean_at_empty:
  "versions_of (temp_store s') k = [] \<Longrightarrow> dirty_above_clean_at s' k"
  by (simp add: dirty_above_clean_at_def split: option.splits)

lemmas msg_defs = empty_msg_def ok_msg_def ok_val_msg_def key_not_found_msg_def
  unexpected_type_msg_def ver_msg_def query_msg_def client_set_msg_def client_get_msg_def

lemmas request_defs = msg_index_key_def msg_index_val_def KVGetRequest_init_def
  KVGetRequest_key_def KVQueryRequest_init_def KVQueryRequest_key_def KVSetRequest_init_def
  KVSetRequest_key_def KVSetRequest_val_def KVSetRequest_version_def KVSetRequest_set_version_def

lemmas cluster_defs = CraqCluster_create_server_def CraqServer_init_def CraqCluster_next_def
  CraqCluster_prev_def

lemmas handler_defs = CraqServer_get_def CraqServer_query_def CraqServer_set_def
  CraqServer_process_req_def assign_version_def current_version_def has_dirty_def
  versions_of_def dirty_put_def dirty_del_def py_max_def

lemmas outcome_defs = response_of_def server_of_def downstream_of_def send_reply_def
  send_fail_def send_log_def

lemma head_after_failed_set_eq:
  "head_after_failed_set =
     \<lparr>name = ''a'', next = Some ''b'', prev = None, tail = ''d'',
      temp_store = [(''k'', [(Some 1, ''x'')])], store = []\<rparr>"
  by (simp add: head_after_failed_set_def msg_defs request_defs cluster_defs handler_defs
      outcome_defs)

lemma head_with_orphan_eq:
  "head_with_orphan =
     \<lparr>name = ''a'', next = Some ''b'', prev = None, tail = ''d'',
      temp_store = [(''k'', [(Some 1, ''x'')])], store = [(''k'', (Some 2, ''y''))]\<rparr>"
  by (simp add: head_with_orphan_def head_after_failed_set_eq msg_defs request_defs
      handler_defs outcome_defs)

lemma assign_head_init:
  "assign_version (CraqCluster_create_server ''a'') (KVSetRequest (client_set_msg ''k'' ''v'')) ''k''
     = Inr (KVSetRequest ((client_set_msg ''k'' ''v'')\<lparr>mver := Some 1\<rparr>))"
  by (simp add: msg_defs request_defs cluster_defs assign_version_def current_version_def
      has_dirty_def)

lemma committed_links [simp]:
  "next (committed k x v s) = next s" "prev (committed k x v s) = prev s"
  "name (committed k x v s) = name s"
  by (simp_all add: committed_def)

lemma committed_store: "map_of (store (committed k x v s)) k = Some (x, v)"
  by (simp add: committed_def update_conv')

lemma committed_dirty:
  "next s \<noteq> None \<Longrightarrow> map_of (versions_of (temp_store (committed k x v s)) k) x = None"
  by (simp add: committed_def versions_of_dirty_put versions_of_dirty_del delete_conv')

lemma committed_tail_dirty:
  "next s = None \<Longrightarrow> has_dirty (committed k x v s) k' = has_dirty s k'"
  by (simp add: committed_def has_dirty_def)

lemma linked_map_committed: "linked (map (committed k x v) chain) = linked chain"
  by (induction chain rule: linked.induct) simp_all

lemma linked_drop: "linked chain \<Longrightarrow> i < length chain \<Longrightarrow> linked (drop i chain)"
proof (induction chain arbitrary: i rule: linked.induct)
  case 1
  then show ?case by simp
next
  case (2 s)
  then show ?case by simp
next
  case (3 s t rest)
  show ?case
  proof (cases i)
    case 0
    then show ?thesis using 3 by simp
  next
    case (Suc j)
    then show ?thesis using 3 by simp
  qed
qed

lemma process_set:
  assumes "mtype m = Some ''SET''" and "mkey m = Some k" and "mval m = Some v"
  shows "CraqServer_process_req send m s n = CraqServer_set send (KVSetRequest m) s n"
  using assms by (simp add: CraqServer_process_req_def KVSetRequest_init_def)

lemma assign_version_interior: "prev s \<noteq> None \<Longrightarrow> assign_version s rq k = Inr rq"
  by (auto simp add: assign_version_def)

text \<open>A stamped SET runs down a linked chain of replicas that have a predecessor.\<close>

lemma chain_set_interior:
  assumes "linked rest" and "prev (hd rest) \<noteq> None"
    and "mtype m = Some ''SET''" and "mkey m = Some k" and "mval m = Some v"
  shows "chain_req rest m = (Inr ok_msg, map (committed k (mver m) v) rest)"
  using assms
proof (induction rest rule: linked.induct)
  case 1
  then show ?case by simp
next
  case (2 s)
  have av: "assign_version s (KVSetRequest m) k = Inr (KVSetRequest m)"
    using 2 by (simp add: assign_version_interior)
  have nx: "next s = None" using 2 by simp
  have "CraqServer_set (\<lambda>sender to m' _. chain_req [] m') (KVSetRequest m) s [] =
      (Inr ok_msg, s\<lparr>store := AList.update k (KVSetRequest_version (KVSetRequest m), v)
         (store s)\<rparr>, [])"
    by (rule set_outcome_tail) (simp_all add: 2 av nx)
  then show ?case using 2 nx
    by (simp add: process_set[of m k v] committed_def KVSetRequest_version_def)
next
  case (3 s t rest)
  have av: "assign_version s (KVSetRequest m) k = Inr (KVSetRequest m)"
    using 3 by (simp add: assign_version_interior)
  have nx: "next s \<noteq> None" using 3 by simp
  have down: "chain_req (t # rest) m = (Inr ok_msg, map (committed k (mver m) v) (t # rest))"
    using 3 by simp
  have "CraqServer_set (\<lambda>sender to m' _. chain_req (t # rest) m') (KVSetRequest m) s (t # rest) =
      (case Inr ok_msg of
         Inl e \<Rightarrow> (Inl e, s\<lparr>temp_store := dirty_put k (KVSetRequest_version (KVSetRequest m)) v
             (temp_store s)\<rparr>, map (committed k (mver m) v) (t # rest))
       | Inr r \<Rightarrow> (Inr ok_msg,
           s\<lparr>temp_store := dirty_del k (KVSetRequest_version (KVSetRequest m))
                (dirty_put k (KVSetRequest_version (KVSetRequest m)) v (temp_store s)),
             store := AList.update k (KVSetRequest_version (KVSetRequest m), v) (store s)\<rparr>,
           map (committed k (mver m) v) (t # rest)))"
    by (rule set_outcome_forward[where k = k and req = "KVSetRequest m"])
      (simp_all add: 3 av nx down del: chain_req.simps)
  then show ?case using nx
    by (simp add: process_set[of m k v] 3 committed_def KVSetRequest_version_def)
qed

text \<open>A client SET that the chain answers has committed one version on every replica.\<close>

lemma chain_set_committed:
  assumes "linked chain"
    and "chain_req chain (client_set_msg k v) = (Inr r, chain')"
  shows "r = ok_msg \<and> (\<exists>x. chain' = map (committed k x v) chain)"
proof (cases chain)
  case Nil
  then show ?thesis using assms by simp
next
  case (Cons s rest)
  let ?m = "client_set_msg k v"
  have m: "mtype ?m = Some ''SET''" "mkey ?m = Some k" "mval ?m = Some v"
    by (simp_all add: client_set_msg_def empty_msg_def)
  let ?send = "\<lambda>(sender::string) (to::string option) m' (_::CraqServer list). chain_req rest m'"
  have step: "chain_req chain ?m =
      (case CraqServer_set ?send (KVSetRequest ?m) s rest of (r, s', rest') \<Rightarrow> (r, s' # rest'))"
    by (simp add: Cons process_set[OF m])
  have out: "(case CraqServer_set ?send (KVSetRequest ?m) s rest of
      (r, s', rest') \<Rightarrow> (r, s' # rest')) = (Inr r, chain')"
    using assms(2) unfolding step .
  have k: "mkey (set_json_msg (KVSetRequest ?m)) = Some k"
    and v: "mval (set_json_msg (KVSetRequest ?m)) = Some v"
    using m by simp_all
  show ?thesis
  proof (cases "assign_version s (KVSetRequest ?m) k")
    case (Inl e)
    then have "CraqServer_set ?send (KVSetRequest ?m) s rest = (Inl e, s, rest)"
      by (simp add: CraqServer_set_def set_key_val(1)[OF k] set_key_val(2)[OF v])
    then show ?thesis using out by simp
  next
    case (Inr req)
    have rm: "mtype (set_json_msg req) = Some ''SET''" "mkey (set_json_msg req) = Some k"
      "mval (set_json_msg req) = Some v"
      using Inr m
      by (auto simp add: assign_version_def KVSetRequest_set_version_def
          split: if_splits sum.splits option.splits)
    show ?thesis
    proof (cases rest)
      case Nil
      then have nx: "next s = None" using assms(1) Cons by simp
      have "CraqServer_set ?send (KVSetRequest ?m) s rest =
          (Inr ok_msg, s\<lparr>store := AList.update k (KVSetRequest_version req, v) (store s)\<rparr>,
           rest)"
        by (rule set_outcome_tail[OF k v Inr nx])
      moreover have "map (committed k (KVSetRequest_version req) v) rest = rest"
        using Nil by simp
      ultimately have "r = ok_msg \<and>
          chain' = map (committed k (KVSetRequest_version req) v) chain"
        using out nx by (simp add: \<open>chain = s # rest\<close> committed_def)
      then show ?thesis by blast
    next
      case (Cons t rest')
      then have lk: "linked rest" and pv: "prev (hd rest) \<noteq> None"
        and nx: "next s \<noteq> None"
        using assms(1) \<open>chain = s # rest\<close> by simp_all
      have down: "chain_req rest (set_json_msg req) =
          (Inr ok_msg, map (committed k (mver (set_json_msg req)) v) rest)"
        by (rule chain_set_interior[OF lk pv rm])
      have "CraqServer_set ?send (KVSetRequest ?m) s rest =
        (case Inr ok_msg of
           Inl e \<Rightarrow> (Inl e, s\<lparr>temp_store := dirty_put k (KVSetRequest_version req) v
               (temp_store s)\<rparr>, map (committed k (mver (set_json_msg req)) v) rest)
         | Inr r \<Rightarrow> (Inr ok_msg,
             s\<lparr>temp_store := dirty_del k (KVSetRequest_version req)
                  (dirty_put k (KVSetRequest_version req) v (temp_store s)),
               store := AList.update k (KVSetRequest_version req, v) (store s)\<rparr>,
             map (committed k (mver (set_json_msg req)) v) rest))"
        by (rule set_outcome_forward[OF k v Inr nx]) (simp add: down)
      then have "r = ok_msg \<and> chain' = map (committed k (KVSetRequest_version req) v) chain"
        using out nx
        by (simp add: \<open>chain = s # rest\<close> committed_def KVSetRequest_version_def)
      then show ?thesis by blast
    qed
  qed
qed

lemma process_query_tail:
  assumes "mtype m = Some ''QUERY''" and "mkey m = Some k" and "next s = None"
  shows "CraqServer_process_req send m s n =
    (case map_of (store s) k of
       None \<Rightarrow> (Inl KeyError, s, n)
     | Some (ver, _) \<Rightarrow> (Inr (ver_msg ver), s, n))"
  using assms
  by (simp add: CraqServer_process_req_def KVQueryRequest_init_def CraqServer_query_def
      KVQueryRequest_key_def msg_index_key_def)

lemma process_query_forward:
  assumes "mtype m = Some ''QUERY''" and "mkey m = Some k" and "next s \<noteq> None"
  shows "CraqServer_process_req send m s n =
    (case send (name s) (next s) m n of (r, n') \<Rightarrow> (r, s, n'))"
  using assms
  by (auto simp add: CraqServer_process_req_def KVQueryRequest_init_def CraqServer_query_def
      KVQueryRequest_key_def msg_index_key_def)

text \<open>A QUERY runs down a linked chain and comes back with the clean version of the tail.\<close>

lemma chain_query:
  assumes "linked rest" and "map_of (store (last rest)) k = Some (x, w)"
    and "mtype m = Some ''QUERY''" and "mkey m = Some k"
  shows "chain_req rest m = (Inr (ver_msg x), rest)"
  using assms
proof (induction rest rule: linked.induct)
  case 1
  then show ?case by simp
next
  case (2 s)
  then show ?case by (simp add: process_query_tail[of m k])
next
  case (3 s t rest)
  have down: "chain_req (t # rest) m = (Inr (ver_msg x), t # rest)"
    using 3 by simp
  have nx: "next s \<noteq> None" using 3 by simp
  have "CraqServer_process_req (\<lambda>sender to m' _. chain_req (t # rest) m') m s (t # rest)
      = (Inr (ver_msg x), s, t # rest)"
    by (simp only: process_query_forward[OF 3(4,5) nx] down prod.case)
  then show ?case by (simp only: chain_req.simps prod.case)
qed

lemma process_get:
  assumes "mtype m = Some ''GET''" and "mkey m = Some k"
  shows "CraqServer_process_req send m s n = CraqServer_get send (KVGetRequest m) s n"
  using assms by (simp add: CraqServer_process_req_def KVGetRequest_init_def)

lemma get_outcome_dirty:
  assumes "mkey (get_json_msg req) = Some k"
    and "map_of (temp_store s) k = Some d" and "d \<noteq> []"
    and "send (name s) (next s) (query_msg k) n = (Inr response, n')"
  shows "CraqServer_get send req s n =
     (Inr (case map_of d (mver response) of
             Some v \<Rightarrow> ok_val_msg v
           | None \<Rightarrow>
               (case map_of (store s) k of
                  Some (cv, v) \<Rightarrow> ok_val_msg v
                | None \<Rightarrow> key_not_found_msg)),
      s, n')"
  using assms
  by (simp add: CraqServer_get_def KVGetRequest_key_def msg_index_key_def has_dirty_def
      versions_of_def split: option.splits)

lemma get_clean_path:
  assumes "mkey (get_json_msg req) = Some k" and "\<not> has_dirty s k"
    and "map_of (store s) k = Some (x, v)"
  shows "CraqServer_get send req s n = (Inr (ok_val_msg v), s, n)"
  using assms by (simp add: CraqServer_get_def KVGetRequest_key_def msg_index_key_def)

text \<open>A GET at the first replica of a chain on which the version \<open>x\<close> of the key is committed.\<close>

lemma chain_get_committed:
  assumes lk: "linked (s # rest)"
    and st: "map_of (store s) k = Some (x, v)"
    and nd: "map_of (versions_of (temp_store s) k) x = None"
    and tl: "rest \<noteq> [] \<longrightarrow> map_of (store (last rest)) k = Some (x, v)"
    and lone: "rest = [] \<longrightarrow> \<not> has_dirty s k"
  shows "chain_req (s # rest) (client_get_msg k) = (Inr (ok_val_msg v), s # rest)"
proof -
  let ?m = "client_get_msg k"
  let ?send = "\<lambda>(sender::string) (to::string option) m' (_::CraqServer list). chain_req rest m'"
  have m: "mtype ?m = Some ''GET''" "mkey ?m = Some k"
    by (simp_all add: client_get_msg_def empty_msg_def)
  have k: "mkey (get_json_msg (KVGetRequest ?m)) = Some k" using m by simp
  have "CraqServer_get ?send (KVGetRequest ?m) s rest = (Inr (ok_val_msg v), s, rest)"
  proof (cases "has_dirty s k")
    case False
    then show ?thesis by (rule get_clean_path[OF k _ st])
  next
    case True
    then have ne: "rest \<noteq> []" using lone by blast
    then obtain t rest' where rest: "rest = t # rest'" by (cases rest) auto
    have lr: "linked rest" using lk rest by simp
    have q: "mtype (query_msg k) = Some ''QUERY''" "mkey (query_msg k) = Some k"
      by (simp_all add: query_msg_def empty_msg_def)
    have down: "chain_req rest (query_msg k) = (Inr (ver_msg x), rest)"
      using chain_query[OF lr _ q] tl ne by blast
    obtain d where d: "map_of (temp_store s) k = Some d" "d \<noteq> []"
      using True by (auto simp add: has_dirty_def split: option.splits)
    have dx: "map_of d x = None" using nd d by (simp add: versions_of_def)
    have "CraqServer_get ?send (KVGetRequest ?m) s rest =
       (Inr (case map_of d (mver (ver_msg x)) of
               Some v \<Rightarrow> ok_val_msg v
             | None \<Rightarrow>
                 (case map_of (store s) k of
                    Some (cv, v) \<Rightarrow> ok_val_msg v
                  | None \<Rightarrow> key_not_found_msg)), s, rest)"
      by (rule get_outcome_dirty[OF k d]) (simp add: down)
    then show ?thesis by (simp add: dx st ver_msg_def empty_msg_def)
  qed
  then show ?thesis by (simp add: process_get[OF m])
qed

lemma chain_with_orphan_set:
  "chain_req chain_with_orphan (client_set_msg ''k'' ''y'') =
     (Inr ok_msg,
      [\<lparr>name = ''a'', next = Some ''b'', prev = None, tail = ''d'',
        temp_store = [(''k'', [(Some 1, ''x'')])], store = [(''k'', (Some 2, ''y''))]\<rparr>,
       \<lparr>name = ''b'', next = Some ''c'', prev = Some ''a'', tail = ''d'',
        temp_store = [(''k'', [])], store = [(''k'', (Some 2, ''y''))]\<rparr>,
       \<lparr>name = ''c'', next = Some ''d'', prev = Some ''b'', tail = ''d'',
        temp_store = [(''k'', [])], store = [(''k'', (Some 2, ''y''))]\<rparr>,
       \<lparr>name = ''d'', next = None, prev = Some ''c'', tail = ''d'',
        temp_store = [], store = [(''k'', (Some 2, ''y''))]\<rparr>])"
  by (simp add: chain_with_orphan_def head_after_failed_set_eq msg_defs request_defs
      cluster_defs handler_defs Let_def)

text \<open>
  What lines 141 to 147 compute when the versions held for the key are integers, and when
  that is the maximum over the dirty versions and the clean version.
\<close>

lemma head_version_rule:
  assumes "prev s = None"
    and "None \<notin> fst ` set (versions_of (temp_store s) k)"
    and "\<not> has_dirty s k \<longrightarrow> (\<forall>v. map_of (store s) k \<noteq> Some (None, v))"
  shows "assign_version s req k =
           Inr (KVSetRequest_set_version req
             ((if has_dirty s k then Max (set (dirty_versions s k))
               else clean_version_or_0 s k) + 1)) \<and>
         ((has_dirty s k \<longrightarrow> clean_version_or_0 s k \<le> Max (set (dirty_versions s k))) \<longrightarrow>
          (if has_dirty s k then Max (set (dirty_versions s k)) else clean_version_or_0 s k)
            = spec_current s k)"
proof (cases "has_dirty s k")
  case True
  note cv = current_version_dirty[OF True assms(2)]
  have "assign_version s req k =
          Inr (KVSetRequest_set_version req (Max (set (dirty_versions s k)) + 1))"
    using assms(1) by (simp add: assign_version_def cv(1))
  moreover have "clean_version_or_0 s k \<le> Max (set (dirty_versions s k)) \<Longrightarrow>
      Max (set (dirty_versions s k)) = spec_current s k"
    using cv(2) by (simp add: spec_current_def max_def)
  ultimately show ?thesis using True by simp
next
  case False
  then have cv: "current_version s k = Inr (Some (clean_version_or_0 s k))"
    using assms(3) by (simp add: current_version_clean)
  have "dirty_versions s k = []"
    using False by (simp add: has_dirty_iff dirty_versions_def)
  then have "spec_current s k = clean_version_or_0 s k"
    by (simp add: spec_current_def)
  then show ?thesis using False assms(1) by (simp add: assign_version_def cv)
qed

lemma least_from_first_min:
  assumes "i < length ps" and "b = ps ! i"
    and "\<forall>j < length ps. snd b \<le> snd (ps ! j)"
    and "\<forall>j < i. snd b < snd (ps ! j)"
  shows "\<exists>i' < length (ps @ xs). least_from b xs = (ps @ xs) ! i' \<and>
           (\<forall>j < length (ps @ xs). snd ((ps @ xs) ! i') \<le> snd ((ps @ xs) ! j)) \<and>
           (\<forall>j < i'. snd ((ps @ xs) ! i') < snd ((ps @ xs) ! j))"
  using assms
proof (induction xs arbitrary: ps b i)
  case Nil
  then show ?case by auto
next
  case (Cons x xs)
  show ?case
  proof (cases "snd x < snd b")
    case True
    have 1: "length ps < length (ps @ [x])" by simp
    have 2: "x = (ps @ [x]) ! length ps" by simp
    have 3: "\<forall>j < length (ps @ [x]). snd x \<le> snd ((ps @ [x]) ! j)"
      using True Cons.prems(3) by (auto simp add: nth_append less_Suc_eq)
    have 4: "\<forall>j < length ps. snd x < snd ((ps @ [x]) ! j)"
      using True Cons.prems(3) by (auto simp add: nth_append)
    from Cons.IH[of "length ps" "ps @ [x]" x, OF 1 2 3 4] True show ?thesis by simp
  next
    case False
    have 1: "i < length (ps @ [x])" using Cons.prems(1) by simp
    have 2: "b = (ps @ [x]) ! i" using Cons.prems(1,2) by (simp add: nth_append)
    have 3: "\<forall>j < length (ps @ [x]). snd b \<le> snd ((ps @ [x]) ! j)"
      using False Cons.prems(3) by (auto simp add: nth_append less_Suc_eq)
    have 4: "\<forall>j < i. snd b < snd ((ps @ [x]) ! j)"
      using Cons.prems(1,4) by (auto simp add: nth_append)
    from Cons.IH[of i "ps @ [x]" b, OF 1 2 3 4] False show ?thesis by simp
  qed
qed

lemma least_loaded_first_min:
  assumes "response_times cl \<noteq> []"
  shows "\<exists>i < length (response_times cl).
           CraqClient_get_least_loaded_server cl = Inr (fst (response_times cl ! i)) \<and>
           (\<forall>j < length (response_times cl).
              snd (response_times cl ! i) \<le> snd (response_times cl ! j)) \<and>
           (\<forall>j < i. snd (response_times cl ! i) < snd (response_times cl ! j))"
proof -
  obtain x xs where rt: "response_times cl = x # xs"
    using assms by (cases "response_times cl") auto
  have "\<exists>i' < length ([x] @ xs). least_from x xs = ([x] @ xs) ! i' \<and>
           (\<forall>j < length ([x] @ xs). snd (([x] @ xs) ! i') \<le> snd (([x] @ xs) ! j)) \<and>
           (\<forall>j < i'. snd (([x] @ xs) ! i') < snd (([x] @ xs) ! j))"
    by (rule least_from_first_min[of 0 "[x]" x xs]) simp_all
  then show ?thesis
    by (simp add: CraqClient_get_least_loaded_server_def rt) metis
qed

lemma init_times:
  "map_of (foldl (\<lambda>d conn. AList.update conn z d) d0 cs) c =
     (if c \<in> set cs then Some z else map_of d0 c)"
  by (induction cs arbitrary: d0) (auto simp add: update_conv')

lemma get_updates_estimate:
  assumes "CraqClient_get_least_loaded_server cl = Inr server"
    and "send server (client_get_msg k) = Inr (Some response)"
    and "map_of (response_times cl) server = Some previous"
  shows "response_times (snd (CraqClient_get fl send elapsed cl k)) =
           AList.update server
             (f_add fl (f_mul fl elapsed (f_03 fl)) (f_mul fl previous (f_07 fl)))
             (response_times cl)"
  using assms
  by (simp add: CraqClient_get_def Let_def split: option.splits)

lemma initial_client:
  "response_times (CraqClient_init exact_ops [''a'', ''b'', ''c'', ''d''])
     = [(''a'', 0), (''b'', 0), (''c'', 0), (''d'', 0)]"
  by (simp add: CraqClient_init_def exact_ops_def)

lemma set_update_subset: "set (AList.update k v al) \<subseteq> insert (k, v) (set al)"
  by (induction al) auto

lemma set_delete: "set (AList.delete k al) = {p \<in> set al. fst p \<noteq> k}"
  by (induction al) auto

lemma set_delete_update:
  "set (AList.delete k (AList.update k v al)) = {p \<in> set al. fst p \<noteq> k}"
  by (simp add: delete_update_same set_delete)

lemma max_from_mem: "max_from b xs = Inr m \<Longrightarrow> m \<in> set (b # xs)"
proof (induction b xs rule: max_from.induct)
  case (1 b)
  then show ?case by simp
next
  case (2 b x xs)
  show ?case
  proof (cases x)
    case None
    then show ?thesis using 2(2) by simp
  next
    case (Some i)
    note xi = this
    show ?thesis
    proof (cases b)
      case None
      then show ?thesis using 2(2) xi by simp
    next
      case (Some j)
      have run: "max_from (if j < i then x else b) xs = Inr m"
        using 2(2) xi Some by (cases "j < i") simp_all
      have "m \<in> set ((if j < i then x else b) # xs)"
        by (rule 2(1)[of x b i j]) (simp_all add: xi Some run)
      then show ?thesis by (auto split: if_splits)
    qed
  qed
qed

lemma py_max_mem: "py_max vs = Inr m \<Longrightarrow> m \<in> set vs"
proof (cases vs)
  case Nil
  assume "py_max vs = Inr m"
  then show ?thesis using Nil by (simp add: py_max_def)
next
  case (Cons x xs)
  assume "py_max vs = Inr m"
  then have "max_from x xs = Inr m" using Cons by (simp add: py_max_def)
  then show ?thesis using Cons max_from_mem by simp
qed

text \<open>Under the invariant, the version that the head assigns is above the clean version.\<close>

lemma head_version_above_clean:
  assumes inv: "dirty_above_clean_at s k" and pv: "prev s = None"
    and av: "assign_version s rq k = Inr req"
    and cl: "map_of (store s) k = Some (cv, w)"
  shows "ver_less cv (KVSetRequest_version req)"
proof -
  obtain c where cur: "current_version s k = Inr (Some c)"
    and req: "req = KVSetRequest_set_version rq (c + 1)"
    using av pv by (auto simp add: assign_version_def split: sum.splits option.splits)
  have "ver_less cv (Some c) \<or> cv = Some c"
  proof (cases "has_dirty s k")
    case True
    then have "py_max (map fst (versions_of (temp_store s) k)) = Inr (Some c)"
      using cur by (simp add: current_version_def)
    then have "Some c \<in> set (map fst (versions_of (temp_store s) k))"
      by (rule py_max_mem)
    then obtain u where "(Some c, u) \<in> set (versions_of (temp_store s) k)"
      by auto
    moreover have "\<forall>p \<in> set (versions_of (temp_store s) k). ver_less cv (fst p)"
      using inv cl by (simp add: dirty_above_clean_at_def list_all_iff split_beta)
    ultimately have "ver_less cv (Some c)" by fastforce
    then show ?thesis by simp
  next
    case False
    then show ?thesis using cur cl by (simp add: current_version_def)
  qed
  then have "ver_less cv (Some (c + 1))"
    by (auto simp add: ver_less_def split: option.splits)
  then show ?thesis by (simp add: req set_version_ver)
qed

text \<open>What a SET that passed the version assignment does to the invariant at each key.\<close>

lemma dirty_above_clean_at_other:
  assumes "k' \<noteq> k" and "dirty_above_clean_at s k'"
    and "map_of (store s') k' = map_of (store s) k'"
    and "versions_of (temp_store s') k' = versions_of (temp_store s) k'"
  shows "dirty_above_clean_at s' k'"
  using dirty_above_clean_at_cong[OF assms(3,4)] assms(2) by simp

lemma set_tail_keeps:
  assumes inv: "\<forall>k'. dirty_above_clean_at s k'"
    and c: "\<forall>(dv, w) \<in> set (versions_of (temp_store s) k). ver_less x dv"
  shows "dirty_above_clean_at (s\<lparr>store := AList.update k (x, v) (store s)\<rparr>) k'"
proof (cases "k' = k")
  case True
  then show ?thesis using c
    by (simp add: dirty_above_clean_at_def update_conv' list_all_iff)
next
  case False
  show ?thesis
    by (rule dirty_above_clean_at_other[of k' k s])
      (use False inv in \<open>simp_all add: update_conv'\<close>)
qed

lemma set_commit_keeps:
  assumes inv: "\<forall>k'. dirty_above_clean_at s k'"
    and c: "\<forall>(dv, w) \<in> set (versions_of (temp_store s) k). dv \<noteq> x \<longrightarrow> ver_less x dv"
  shows "dirty_above_clean_at
           (s\<lparr>temp_store := dirty_del k x (dirty_put k x v (temp_store s)),
              store := AList.update k (x, v) (store s)\<rparr>) k'"
proof (cases "k' = k")
  case True
  then show ?thesis using c
    by (auto simp add: dirty_above_clean_at_def update_conv' list_all_iff
        versions_of_dirty_put versions_of_dirty_del set_delete_update)
next
  case False
  show ?thesis
    by (rule dirty_above_clean_at_other[of k' k s])
      (use False inv in \<open>simp_all add: update_conv' versions_of_dirty_put versions_of_dirty_del\<close>)
qed

lemma set_fail_keeps:
  assumes inv: "\<forall>k'. dirty_above_clean_at s k'"
    and c: "\<forall>cv w. map_of (store s) k = Some (cv, w) \<longrightarrow> ver_less cv x"
  shows "dirty_above_clean_at (s\<lparr>temp_store := dirty_put k x v (temp_store s)\<rparr>) k'"
proof (cases "k' = k")
  case True
  have ik: "dirty_above_clean_at s k" using inv by simp
  show ?thesis
  proof (cases "map_of (store s) k")
    case None
    then show ?thesis using True by (simp add: dirty_above_clean_at_def)
  next
    case (Some e)
    obtain cv w where e: "e = (cv, w)" by (cases e)
    let ?d = "versions_of (temp_store s) k"
    have new: "ver_less cv x" using c Some e by simp
    have old: "\<forall>p \<in> set ?d. ver_less cv (fst p)"
      using ik Some e by (simp add: dirty_above_clean_at_def list_all_iff split_beta)
    have "\<forall>p \<in> set (AList.update x v ?d). ver_less cv (fst p)"
    proof
      fix p assume "p \<in> set (AList.update x v ?d)"
      then have "p = (x, v) \<or> p \<in> set ?d"
        using set_update_subset[of x v ?d] by blast
      then show "ver_less cv (fst p)" using new old by auto
    qed
    then show ?thesis using True Some e
      by (simp add: dirty_above_clean_at_def list_all_iff versions_of_dirty_put split_beta)
  qed
next
  case False
  show ?thesis
    by (rule dirty_above_clean_at_other[of k' k s])
      (use False inv in \<open>simp_all add: versions_of_dirty_put\<close>)
qed

lemma set_keeps_invariant:
  assumes inv: "\<forall>k'. dirty_above_clean_at s k'"
    and raised: "\<And>e k cv w. response_of (CraqServer_set send rq s n) = Inl e \<Longrightarrow>
        prev s \<noteq> None \<Longrightarrow> mkey (set_json_msg rq) = Some k \<Longrightarrow>
        map_of (store s) k = Some (cv, w) \<Longrightarrow> ver_less cv (mver (set_json_msg rq))"
    and returned_head: "\<And>r k. response_of (CraqServer_set send rq s n) = Inr r \<Longrightarrow>
        prev s = None \<Longrightarrow> mkey (set_json_msg rq) = Some k \<Longrightarrow> \<not> has_dirty s k"
    and returned: "\<And>r k dv w. response_of (CraqServer_set send rq s n) = Inr r \<Longrightarrow>
        prev s \<noteq> None \<Longrightarrow> mkey (set_json_msg rq) = Some k \<Longrightarrow>
        (dv, w) \<in> set (versions_of (temp_store s) k) \<Longrightarrow>
        dv \<noteq> mver (set_json_msg rq) \<or> next s = None \<Longrightarrow>
        ver_less (mver (set_json_msg rq)) dv"
  shows "dirty_above_clean_at (server_of (CraqServer_set send rq s n)) k'"
proof -
  let ?out = "CraqServer_set send rq s n"
  have inv': "dirty_above_clean_at s k'" using inv by simp
  show ?thesis
  proof (cases "mkey (set_json_msg rq)")
    case None
    then show ?thesis using inv'
      by (simp add: CraqServer_set_def KVSetRequest_key_def msg_index_key_def server_of_def)
  next
    case (Some k)
    note k = this
    show ?thesis
    proof (cases "mval (set_json_msg rq)")
      case None
      then show ?thesis using inv' k
        by (simp add: CraqServer_set_def set_key_val KVSetRequest_val_def msg_index_val_def
            server_of_def)
    next
      case (Some v)
      note v = this
      show ?thesis
      proof (cases "assign_version s rq k")
        case (Inl e)
        then show ?thesis using inv' k v
          by (simp add: CraqServer_set_def set_key_val server_of_def)
      next
        case (Inr req)
        note req = this
        let ?x = "KVSetRequest_version req"
        let ?d = "versions_of (temp_store s) k"
        have nonhead: "prev s \<noteq> None \<Longrightarrow> ?x = mver (set_json_msg rq)"
          using req by (auto simp add: assign_version_def KVSetRequest_version_def)
        show ?thesis
        proof (cases "next s = None")
          case True
          have out: "?out = (Inr ok_msg, s\<lparr>store := AList.update k (?x, v) (store s)\<rparr>, n)"
            by (rule set_outcome_tail[OF k v req True])
          then have r: "response_of ?out = Inr ok_msg" by (simp add: response_of_def)
          have c: "\<forall>(dv, w) \<in> set ?d. ver_less ?x dv"
          proof (cases "prev s = None")
            case True
            then have "?d = []" using returned_head[OF r True k] by (simp add: has_dirty_iff)
            then show ?thesis by simp
          next
            case False
            then show ?thesis
              using returned[OF r False k] nonhead[OF False] \<open>next s = None\<close> by auto
          qed
          show ?thesis using set_tail_keeps[OF inv c, of v k'] out by (simp add: server_of_def)
        next
          case False
          obtain res n' where snd: "send (name s) (next s) (set_json_msg req) n = (res, n')"
            by (cases "send (name s) (next s) (set_json_msg req) n") auto
          note out = set_outcome_forward[where send = send, OF k v req False snd]
          show ?thesis
          proof (cases res)
            case (Inr r0)
            then have o: "?out = (Inr ok_msg,
                s\<lparr>temp_store := dirty_del k ?x (dirty_put k ?x v (temp_store s)),
                  store := AList.update k (?x, v) (store s)\<rparr>, n')"
              using out by simp
            then have r: "response_of ?out = Inr ok_msg" by (simp add: response_of_def)
            have c: "\<forall>(dv, w) \<in> set ?d. dv \<noteq> ?x \<longrightarrow> ver_less ?x dv"
            proof (cases "prev s = None")
              case True
              then have "?d = []" using returned_head[OF r True k] by (simp add: has_dirty_iff)
              then show ?thesis by simp
            next
              case False
              then show ?thesis using returned[OF r False k] nonhead[OF False] by auto
            qed
            show ?thesis using set_commit_keeps[OF inv c, of v k'] o
              by (simp add: server_of_def)
          next
            case (Inl e)
            then have o: "?out = (Inl e, s\<lparr>temp_store := dirty_put k ?x v (temp_store s)\<rparr>, n')"
              using out by simp
            then have r: "response_of ?out = Inl e" by (simp add: response_of_def)
            have c: "\<forall>cv w. map_of (store s) k = Some (cv, w) \<longrightarrow> ver_less cv ?x"
            proof (cases "prev s = None")
              case True
              show ?thesis
                using head_version_above_clean[OF _ True req] inv by blast
            next
              case False
              then show ?thesis using raised[OF r False k] nonhead[OF False] by auto
            qed
            show ?thesis using set_fail_keeps[OF inv c, of v k'] o
              by (simp add: server_of_def)
          qed
        qed
      qed
    qed
  qed
qed

lemma process_set_malformed:
  assumes "\<not> (mtype msg = Some ''SET'' \<and> mkey msg \<noteq> None \<and> mval msg \<noteq> None)"
  shows "server_of (CraqServer_process_req send msg s n) = s"
  using assms
  by (auto simp add: CraqServer_process_req_def KVSetRequest_init_def get_frame query_frame
      split: sum.splits) (simp_all add: server_of_def)

lemma head_clean_and_dirty_eq:
  "head_clean_and_dirty =
     \<lparr>name = ''a'', next = Some ''b'', prev = None, tail = ''d'',
      temp_store = [(''k'', [(Some 2, ''b'')])], store = [(''k'', (Some 1, ''a''))]\<rparr>"
  by (simp add: head_clean_and_dirty_def msg_defs request_defs cluster_defs handler_defs
      outcome_defs Let_def)

lemma interior_committed_eq:
  "interior_committed =
     \<lparr>name = ''b'', next = Some ''c'', prev = Some ''a'', tail = ''d'',
      temp_store = [(''k'', [])], store = [(''k'', (Some 2, ''y''))]\<rparr>"
  by (simp add: interior_committed_def msg_defs request_defs cluster_defs handler_defs
      outcome_defs Let_def)

lemma interior_after_reuse_eq:
  "interior_after_reuse =
     \<lparr>name = ''b'', next = Some ''c'', prev = Some ''a'', tail = ''d'',
      temp_store = [(''k'', [(Some 2, ''z'')])], store = [(''k'', (Some 2, ''y''))]\<rparr>"
  by (simp add: interior_after_reuse_def interior_committed_eq msg_defs request_defs
      handler_defs outcome_defs Let_def)

lemmas eval_defs = msg_defs request_defs cluster_defs handler_defs outcome_defs Let_def

section \<open>The claims\<close>

text \<open>
  C1. A GET for a key whose dirty map is not empty sends \<open>QUERY{key}\<close> to \<open>next\<close>. With
  the version that comes back: when it is a key of the dirty map of the key, the answer is
  OK with the dirty value of that version; otherwise, when the key has a clean entry, the
  answer is OK with the clean value; otherwise the answer is "Key not found". The replica
  is unchanged, and the downstream state is the one the query left.
\<close>

theorem get_dirty_path:
  assumes "mkey (get_json_msg req) = Some k"
    and "map_of (temp_store s) k = Some d" and "d \<noteq> []"
    and "send (name s) (next s) (query_msg k) n = (Inr response, n')"
  shows "CraqServer_get send req s n =
     (Inr (case map_of d (mver response) of
             Some v \<Rightarrow> ok_val_msg v
           | None \<Rightarrow>
               (case map_of (store s) k of
                  Some (cv, v) \<Rightarrow> ok_val_msg v
                | None \<Rightarrow> key_not_found_msg)),
      s, n')"
  using assms
  by (simp add: CraqServer_get_def KVGetRequest_key_def msg_index_key_def has_dirty_def
      versions_of_def split: option.splits)

theorem get_dirty_path_witness:
  "CraqServer_get (send_reply (ver_msg (Some 2))) (KVGetRequest (client_get_msg ''k''))
     ((CraqCluster_create_server ''b'')
        \<lparr>temp_store := [(''k'', [(Some 2, ''new'')])], store := [(''k'', (Some 1, ''old''))]\<rparr>) ()
   = (Inr (ok_val_msg ''new''),
      (CraqCluster_create_server ''b'')
        \<lparr>temp_store := [(''k'', [(Some 2, ''new'')])], store := [(''k'', (Some 1, ''old''))]\<rparr>, ()) \<and>
   CraqServer_get (send_reply (ver_msg (Some 1))) (KVGetRequest (client_get_msg ''k''))
     ((CraqCluster_create_server ''b'')
        \<lparr>temp_store := [(''k'', [(Some 2, ''new'')])], store := [(''k'', (Some 1, ''old''))]\<rparr>) ()
   = (Inr (ok_val_msg ''old''),
      (CraqCluster_create_server ''b'')
        \<lparr>temp_store := [(''k'', [(Some 2, ''new'')])], store := [(''k'', (Some 1, ''old''))]\<rparr>, ())"
proof -
  let ?s = "(CraqCluster_create_server ''b'')
        \<lparr>temp_store := [(''k'', [(Some 2, ''new'')])], store := [(''k'', (Some 1, ''old''))]\<rparr>"
  have k: "mkey (get_json_msg (KVGetRequest (client_get_msg ''k''))) = Some ''k''"
    by (simp add: msg_defs)
  have d: "map_of (temp_store ?s) ''k'' = Some [(Some 2, ''new'')]" by simp
  have ne: "[(Some (2::int), ''new'')] \<noteq> []" by simp
  have s2: "send_reply (ver_msg (Some 2)) (name ?s) (next ?s) (query_msg ''k'') ()
      = (Inr (ver_msg (Some 2)), ())"
    by (simp add: send_reply_def)
  have s1: "send_reply (ver_msg (Some 1)) (name ?s) (next ?s) (query_msg ''k'') ()
      = (Inr (ver_msg (Some 1)), ())"
    by (simp add: send_reply_def)
  show ?thesis
    using get_dirty_path[where send = "send_reply (ver_msg (Some 2))", OF k d ne s2]
      get_dirty_path[where send = "send_reply (ver_msg (Some 1))", OF k d ne s1]
    by (simp add: ver_msg_def empty_msg_def)
qed

text \<open>
  C2, as amended. A SET at a replica with a successor writes the clean entry and deletes
  the dirty entry of its version exactly when the forward to \<open>next\<close> returns a response,
  whatever the status of the response, which the handler does not read; it then answers
  OK. When the forward raises, the handler raises the same error, the clean map is as
  before and the dirty entry stays.
\<close>

theorem set_commits_only_after_forward:
  assumes "next s \<noteq> None"
    and "mkey (set_json_msg rq) = Some k" and "mval (set_json_msg rq) = Some v"
    and "assign_version s rq k = Inr req"
    and "send (name s) (next s) (set_json_msg req) n = (res, n')"
  shows "case res of
      Inr r \<Rightarrow>
        response_of (CraqServer_set send rq s n) = Inr ok_msg \<and>
        map_of (store (server_of (CraqServer_set send rq s n))) k
          = Some (KVSetRequest_version req, v) \<and>
        map_of (versions_of (temp_store (server_of (CraqServer_set send rq s n))) k)
          (KVSetRequest_version req) = None
    | Inl e \<Rightarrow>
        response_of (CraqServer_set send rq s n) = Inl e \<and>
        store (server_of (CraqServer_set send rq s n)) = store s \<and>
        map_of (versions_of (temp_store (server_of (CraqServer_set send rq s n))) k)
          (KVSetRequest_version req) = Some v"
  using set_outcome_forward[of rq k v s req send n res n'] assms
  by (simp add: response_of_def server_of_def versions_of_dirty_put versions_of_dirty_del
      update_conv' delete_conv' split: sum.splits)

theorem set_commits_only_after_forward_witness:
  "response_of (CraqServer_set (send_reply ok_msg) (KVSetRequest (client_set_msg ''k'' ''v''))
      (CraqCluster_create_server ''a'') ()) = Inr ok_msg \<and>
   map_of (store (server_of (CraqServer_set (send_reply ok_msg)
      (KVSetRequest (client_set_msg ''k'' ''v'')) (CraqCluster_create_server ''a'') ()))) ''k''
     = Some (Some 1, ''v'') \<and>
   map_of (versions_of (temp_store (server_of (CraqServer_set (send_reply ok_msg)
      (KVSetRequest (client_set_msg ''k'' ''v'')) (CraqCluster_create_server ''a'') ()))) ''k'')
      (Some 1) = None \<and>
   response_of (CraqServer_set (send_fail ConnectionError)
      (KVSetRequest (client_set_msg ''k'' ''v'')) (CraqCluster_create_server ''a'') ())
     = Inl ConnectionError \<and>
   store (server_of (CraqServer_set (send_fail ConnectionError)
      (KVSetRequest (client_set_msg ''k'' ''v'')) (CraqCluster_create_server ''a'') ())) = [] \<and>
   map_of (versions_of (temp_store (server_of (CraqServer_set (send_fail ConnectionError)
      (KVSetRequest (client_set_msg ''k'' ''v'')) (CraqCluster_create_server ''a'') ()))) ''k'')
      (Some 1) = Some ''v''"
proof -
  let ?s = "CraqCluster_create_server ''a''"
  let ?rq = "KVSetRequest (client_set_msg ''k'' ''v'')"
  let ?req = "KVSetRequest ((client_set_msg ''k'' ''v'')\<lparr>mver := Some 1\<rparr>)"
  have nx: "next ?s \<noteq> None" by (simp add: cluster_defs)
  have k: "mkey (set_json_msg ?rq) = Some ''k''" by (simp add: msg_defs)
  have v: "mval (set_json_msg ?rq) = Some ''v''" by (simp add: msg_defs)
  have ok: "send_reply ok_msg (name ?s) (next ?s) (set_json_msg ?req) () = (Inr ok_msg, ())"
    by (simp add: send_reply_def)
  have fl: "send_fail ConnectionError (name ?s) (next ?s) (set_json_msg ?req) ()
      = (Inl ConnectionError, ())"
    by (simp add: send_fail_def)
  have st: "store ?s = []" by (simp add: cluster_defs)
  show ?thesis
    using set_commits_only_after_forward[where send = "send_reply ok_msg",
        OF nx k v assign_head_init ok]
      set_commits_only_after_forward[where send = "send_fail ConnectionError",
        OF nx k v assign_head_init fl]
    by (simp add: st KVSetRequest_version_def)
qed

text \<open>
  C2 as stated fails: the peer answers the forward with a status that is not OK, and the
  head still writes the clean entry, deletes the dirty entry and answers OK.
\<close>

theorem set_ignores_status_counterexample:
  "mstatus unexpected_type_msg \<noteq> Some ''OK'' \<and>
   response_of (CraqServer_set (send_reply unexpected_type_msg)
      (KVSetRequest (client_set_msg ''k'' ''v'')) (CraqCluster_create_server ''a'') ())
     = Inr ok_msg \<and>
   map_of (store (server_of (CraqServer_set (send_reply unexpected_type_msg)
      (KVSetRequest (client_set_msg ''k'' ''v'')) (CraqCluster_create_server ''a'') ()))) ''k''
     = Some (Some 1, ''v'') \<and>
   map_of (versions_of (temp_store (server_of (CraqServer_set (send_reply unexpected_type_msg)
      (KVSetRequest (client_set_msg ''k'' ''v'')) (CraqCluster_create_server ''a'') ()))) ''k'')
      (Some 1) = None"
  by (simp add: msg_defs request_defs cluster_defs handler_defs outcome_defs Let_def)

text \<open>
  C3. The claim says that the head assigns one more than the maximum over the dirty
  versions of the key and its clean version. Lines 141 to 146 never read the clean version
  when the key has a dirty version. The head that holds the orphan dirty version 1 and the
  clean version 2 of the write \<open>y\<close> stamps the next write \<open>z\<close> with 2 again, where the
  claim gives 3, and sends it on under that version. A replica that has committed \<open>y\<close> at
  version 2 and keeps \<open>z\<close> dirty at version 2, because its forward failed, then answers a
  GET with \<open>z\<close> when the tail reports the version 2 of \<open>y\<close>.
\<close>

theorem head_reuses_version:
  "prev head_with_orphan = None \<and>
   map_of (store head_with_orphan) ''k'' = Some (Some 2, ''y'') \<and>
   spec_current head_with_orphan ''k'' + 1 = 3 \<and>
   assign_version head_with_orphan (KVSetRequest (client_set_msg ''k'' ''z'')) ''k''
     = Inr (KVSetRequest ((client_set_msg ''k'' ''z'')\<lparr>mver := Some 2\<rparr>)) \<and>
   downstream_of (CraqServer_process_req (send_log ok_msg) (client_set_msg ''k'' ''z'')
      head_with_orphan [])
     = [(''a'', Some ''b'', (client_set_msg ''k'' ''z'')\<lparr>mver := Some 2\<rparr>)] \<and>
   response_of (CraqServer_process_req (send_reply (ver_msg (Some 2))) (client_get_msg ''k'')
      interior_after_reuse ()) = Inr (ok_val_msg ''z'')"
  by (simp add: head_with_orphan_eq interior_after_reuse_eq msg_defs request_defs handler_defs
      outcome_defs spec_current_def dirty_versions_def clean_version_or_0_def Let_def)

text \<open>
  C4, as amended. With the invariant that each dirty version of a key is strictly greater
  than its clean version: every GET and every QUERY keeps it, whatever they answer, and so
  does every SET that raises at the head. A SET that raises at a replica with a
  predecessor keeps it when the version of the request is greater than the clean version
  of the key, or the key has no clean entry. A SET that returns keeps it at the head when
  the key has no dirty version beforehand, and at a replica with a predecessor when every
  dirty version of the key other than the one of the request, and at the tail that one as
  well, is greater than the version of the request.
\<close>

theorem dirty_above_clean_preserved:
  assumes "dirty_above_clean s"
  shows
    "(mtype msg \<noteq> Some ''SET'' \<longrightarrow>
        dirty_above_clean (server_of (CraqServer_process_req send msg s n))) \<and>
     ((\<exists>e. response_of (CraqServer_process_req send msg s n) = Inl e) \<and> prev s = None \<longrightarrow>
        dirty_above_clean (server_of (CraqServer_process_req send msg s n))) \<and>
     ((\<exists>e. response_of (CraqServer_process_req send msg s n) = Inl e) \<and> prev s \<noteq> None \<and>
      (\<forall>k cv w. mkey msg = Some k \<longrightarrow> map_of (store s) k = Some (cv, w) \<longrightarrow>
         ver_less cv (mver msg)) \<longrightarrow>
        dirty_above_clean (server_of (CraqServer_process_req send msg s n))) \<and>
     ((\<exists>r. response_of (CraqServer_process_req send msg s n) = Inr r) \<and> prev s = None \<and>
      (\<forall>k. mkey msg = Some k \<longrightarrow> \<not> has_dirty s k) \<longrightarrow>
        dirty_above_clean (server_of (CraqServer_process_req send msg s n))) \<and>
     ((\<exists>r. response_of (CraqServer_process_req send msg s n) = Inr r) \<and> prev s \<noteq> None \<and>
      (\<forall>k dv w. mkey msg = Some k \<longrightarrow> (dv, w) \<in> set (versions_of (temp_store s) k) \<longrightarrow>
         dv \<noteq> mver msg \<or> next s = None \<longrightarrow> ver_less (mver msg) dv) \<longrightarrow>
        dirty_above_clean (server_of (CraqServer_process_req send msg s n)))"
proof (cases "mtype msg = Some ''SET'' \<and> mkey msg \<noteq> None \<and> mval msg \<noteq> None")
  case False
  then have "server_of (CraqServer_process_req send msg s n) = s"
    by (rule process_set_malformed)
  then show ?thesis using assms by simp
next
  case True
  let ?out = "CraqServer_set send (KVSetRequest msg) s n"
  have eq: "CraqServer_process_req send msg s n = ?out"
    using True by (auto simp add: CraqServer_process_req_def KVSetRequest_init_def)
  have inv: "\<forall>k'. dirty_above_clean_at s k'"
    using assms by (simp add: dirty_above_clean_iff)
  have ty: "mtype msg = Some ''SET''" using True by simp
  have 2: "dirty_above_clean (server_of ?out)"
    if "\<exists>e. response_of ?out = Inl e" and "prev s = None"
    using that
    by (auto simp add: dirty_above_clean_iff intro!: set_keeps_invariant[OF inv])
  have 3: "dirty_above_clean (server_of ?out)"
    if "\<exists>e. response_of ?out = Inl e" and "prev s \<noteq> None"
      and "\<forall>k cv w. mkey msg = Some k \<longrightarrow> map_of (store s) k = Some (cv, w) \<longrightarrow>
         ver_less cv (mver msg)"
    using that
    by (auto simp add: dirty_above_clean_iff intro!: set_keeps_invariant[OF inv])
  have 4: "dirty_above_clean (server_of ?out)"
    if "\<exists>r. response_of ?out = Inr r" and "prev s = None"
      and "\<forall>k. mkey msg = Some k \<longrightarrow> \<not> has_dirty s k"
    using that
    by (auto simp add: dirty_above_clean_iff intro!: set_keeps_invariant[OF inv])
  have 5: "dirty_above_clean (server_of ?out)"
    if "\<exists>r. response_of ?out = Inr r" and "prev s \<noteq> None"
      and "\<forall>k dv w. mkey msg = Some k \<longrightarrow> (dv, w) \<in> set (versions_of (temp_store s) k) \<longrightarrow>
         dv \<noteq> mver msg \<or> next s = None \<longrightarrow> ver_less (mver msg) dv"
    using that
    by (auto simp add: dirty_above_clean_iff intro!: set_keeps_invariant[OF inv]) blast+
  show ?thesis using ty 2 3 4 5 by (simp add: eq)
qed

theorem dirty_above_clean_preserved_witness:
  "dirty_above_clean (server_of (CraqServer_process_req (send_fail ConnectionError)
      (query_msg ''k'') head_clean_and_dirty ())) \<and>
   server_of (CraqServer_process_req (send_fail ConnectionError) (client_set_msg ''k'' ''c'')
      head_clean_and_dirty ())
     = head_clean_and_dirty\<lparr>temp_store := [(''k'', [(Some 2, ''b''), (Some 3, ''c'')])]\<rparr> \<and>
   dirty_above_clean
     (head_clean_and_dirty\<lparr>temp_store := [(''k'', [(Some 2, ''b''), (Some 3, ''c'')])]\<rparr>) \<and>
   dirty_above_clean (server_of (CraqServer_process_req (send_fail ConnectionError)
      ((client_set_msg ''k'' ''w'')\<lparr>mver := Some 3\<rparr>) interior_committed ())) \<and>
   dirty_above_clean (server_of (CraqServer_process_req (send_reply ok_msg)
      (client_set_msg ''k'' ''b'')
      ((CraqCluster_create_server ''a'')
         \<lparr>temp_store := [(''k'', [])], store := [(''k'', (Some 1, ''a''))]\<rparr>) ())) \<and>
   dirty_above_clean (server_of (CraqServer_process_req (send_reply ok_msg)
      ((client_set_msg ''k'' ''w'')\<lparr>mver := Some 3\<rparr>)
      (interior_committed\<lparr>temp_store := [(''k'', [(Some 5, ''u'')])]\<rparr>) ()))"
proof -
  let ?h = head_clean_and_dirty
  let ?b = interior_committed
  let ?a1 = "(CraqCluster_create_server ''a'')
         \<lparr>temp_store := [(''k'', [])], store := [(''k'', (Some 1, ''a''))]\<rparr>"
  let ?b5 = "interior_committed\<lparr>temp_store := [(''k'', [(Some 5, ''u'')])]\<rparr>"
  let ?m3 = "(client_set_msg ''k'' ''w'')\<lparr>mver := Some 3\<rparr>"
  have ih: "dirty_above_clean ?h"
    by (simp add: head_clean_and_dirty_eq dirty_above_clean_def dirty_above_clean_at_def
        versions_of_def ver_less_def)
  have ib: "dirty_above_clean ?b"
    by (simp add: interior_committed_eq dirty_above_clean_def dirty_above_clean_at_def
        versions_of_def)
  have ia: "dirty_above_clean ?a1"
    by (simp add: dirty_above_clean_def dirty_above_clean_at_def versions_of_def)
  have ib5: "dirty_above_clean ?b5"
    by (simp add: interior_committed_eq dirty_above_clean_def dirty_above_clean_at_def
        versions_of_def ver_less_def)
  \<comment> \<open>a QUERY, whatever it answers\<close>
  have q: "mtype (query_msg ''k'') \<noteq> Some ''SET''" by (simp add: msg_defs)
  note e1 = dirty_above_clean_preserved[where send = "send_fail ConnectionError" and n = "()"
      and msg = "query_msg ''k''", OF ih, THEN conjunct1, rule_format, OF q]
  \<comment> \<open>a SET that raises at the head, dirty versions present\<close>
  have o2: "CraqServer_process_req (send_fail ConnectionError) (client_set_msg ''k'' ''c'') ?h ()
      = (Inl ConnectionError,
         ?h\<lparr>temp_store := [(''k'', [(Some 2, ''b''), (Some 3, ''c'')])]\<rparr>, ())"
    by (simp add: head_clean_and_dirty_eq eval_defs)
  have h2: "(\<exists>e. response_of (CraqServer_process_req (send_fail ConnectionError)
      (client_set_msg ''k'' ''c'') ?h ()) = Inl e) \<and> prev ?h = None"
    by (simp add: o2 response_of_def) (simp add: head_clean_and_dirty_eq)
  note e2 = dirty_above_clean_preserved[where send = "send_fail ConnectionError" and n = "()"
      and msg = "client_set_msg ''k'' ''c''", OF ih, THEN conjunct2, THEN conjunct1,
      rule_format, OF h2]
  \<comment> \<open>a SET that raises at \<open>b\<close>, its version above the clean one\<close>
  have o3: "response_of (CraqServer_process_req (send_fail ConnectionError) ?m3 ?b ())
      = Inl ConnectionError"
    by (simp add: interior_committed_eq eval_defs)
  have h3: "(\<exists>e. response_of (CraqServer_process_req (send_fail ConnectionError) ?m3 ?b ())
        = Inl e) \<and> prev ?b \<noteq> None \<and>
      (\<forall>k cv w. mkey ?m3 = Some k \<longrightarrow> map_of (store ?b) k = Some (cv, w) \<longrightarrow>
         ver_less cv (mver ?m3))"
    by (simp add: o3) (simp add: interior_committed_eq msg_defs ver_less_def)
  note e3 = dirty_above_clean_preserved[where send = "send_fail ConnectionError" and n = "()"
      and msg = ?m3, OF ib, THEN conjunct2, THEN conjunct2, THEN conjunct1, rule_format, OF h3]
  \<comment> \<open>a SET that returns at the head, no dirty version\<close>
  have o4: "response_of (CraqServer_process_req (send_reply ok_msg) (client_set_msg ''k'' ''b'')
      ?a1 ()) = Inr ok_msg"
    by (simp add: eval_defs)
  have h4: "(\<exists>r. response_of (CraqServer_process_req (send_reply ok_msg)
        (client_set_msg ''k'' ''b'') ?a1 ()) = Inr r) \<and> prev ?a1 = None \<and>
      (\<forall>k. mkey (client_set_msg ''k'' ''b'') = Some k \<longrightarrow> \<not> has_dirty ?a1 k)"
    by (simp add: o4) (simp add: cluster_defs msg_defs has_dirty_def)
  note e4 = dirty_above_clean_preserved[where send = "send_reply ok_msg" and n = "()"
      and msg = "client_set_msg ''k'' ''b''", OF ia, THEN conjunct2, THEN conjunct2,
      THEN conjunct2, THEN conjunct1, rule_format, OF h4]
  \<comment> \<open>a SET that returns at \<open>b\<close>, the other dirty version above the written one\<close>
  have o5: "response_of (CraqServer_process_req (send_reply ok_msg) ?m3 ?b5 ()) = Inr ok_msg"
    by (simp add: interior_committed_eq eval_defs)
  have h5: "(\<exists>r. response_of (CraqServer_process_req (send_reply ok_msg) ?m3 ?b5 ()) = Inr r)
      \<and> prev ?b5 \<noteq> None \<and>
      (\<forall>k dv w. mkey ?m3 = Some k \<longrightarrow> (dv, w) \<in> set (versions_of (temp_store ?b5) k) \<longrightarrow>
         dv \<noteq> mver ?m3 \<or> next ?b5 = None \<longrightarrow> ver_less (mver ?m3) dv)"
    by (simp add: o5) (simp add: interior_committed_eq msg_defs versions_of_def ver_less_def)
  note e5 = dirty_above_clean_preserved[where send = "send_reply ok_msg" and n = "()"
      and msg = ?m3, OF ib5, THEN conjunct2, THEN conjunct2, THEN conjunct2, THEN conjunct2,
      rule_format, OF h5]
  have s2: "server_of (CraqServer_process_req (send_fail ConnectionError)
      (client_set_msg ''k'' ''c'') ?h ())
     = ?h\<lparr>temp_store := [(''k'', [(Some 2, ''b''), (Some 3, ''c'')])]\<rparr>"
    by (simp add: o2 server_of_def)
  show ?thesis using e1 e2 e3 e4 e5 by (simp only: s2 simp_thms)
qed

text \<open>
  C4 as stated fails twice. The head after a failed forward satisfies the invariant, and
  the next SET of the key, which returns OK, leaves the dirty version 1 below the clean
  version 2. The replica \<open>b\<close> with the clean version 2 satisfies it, and a SET that comes
  with the version 2 again and whose forward fails leaves the dirty version 2 beside the
  clean version 2.
\<close>

theorem dirty_above_clean_counterexample:
  "dirty_above_clean head_after_failed_set \<and>
   response_of (CraqServer_process_req (send_reply ok_msg) (client_set_msg ''k'' ''y'')
      head_after_failed_set ()) = Inr ok_msg \<and>
   \<not> dirty_above_clean (server_of (CraqServer_process_req (send_reply ok_msg)
      (client_set_msg ''k'' ''y'') head_after_failed_set ())) \<and>
   dirty_above_clean interior_committed \<and>
   response_of (CraqServer_process_req (send_fail ConnectionError)
      ((client_set_msg ''k'' ''z'')\<lparr>mver := Some 2\<rparr>) interior_committed ())
     = Inl ConnectionError \<and>
   \<not> dirty_above_clean (server_of (CraqServer_process_req (send_fail ConnectionError)
      ((client_set_msg ''k'' ''z'')\<lparr>mver := Some 2\<rparr>) interior_committed ()))"
  by (simp add: head_after_failed_set_eq interior_committed_eq msg_defs request_defs
      handler_defs outcome_defs dirty_above_clean_def dirty_above_clean_at_def ver_less_def
      Let_def)

text \<open>
  C5. The claim says that a QUERY at the tail for a key without clean entry is answered by
  an error response. The handler raises \<open>KeyError\<close> instead, and the dispatcher lets it
  through: the tail \<open>d\<close> in its initial state, asked for the key \<open>k\<close>.
\<close>

theorem tail_query_missing_key_raises:
  "CraqServer_process_req send (query_msg ''k'') (CraqCluster_create_server ''d'') n
     = (Inl KeyError, CraqCluster_create_server ''d'', n)"
  by (simp add: CraqServer_process_req_def query_msg_def empty_msg_def KVQueryRequest_init_def
      CraqServer_query_def KVQueryRequest_key_def msg_index_key_def
      CraqCluster_create_server_def CraqServer_init_def CraqCluster_next_def)

text \<open>
  C6. The dirty map of a new replica is empty, and at a replica without successor it
  stays empty whatever messages the replica handles. A SET there writes the version and
  the value into the clean map, answers OK and changes nothing else.
\<close>

theorem tail_commits_directly:
  "temp_store (CraqServer_init info nxt prv tail_name) = [] \<and>
   (next s = None \<longrightarrow> temp_store s = [] \<longrightarrow> temp_store (fst (serve send msgs s n)) = []) \<and>
   (next s = None \<longrightarrow> mkey (set_json_msg rq) = Some k \<longrightarrow> mval (set_json_msg rq) = Some v \<longrightarrow>
    assign_version s rq k = Inr req \<longrightarrow>
      CraqServer_set send rq s n =
        (Inr ok_msg, s\<lparr>store := AList.update k (KVSetRequest_version req, v) (store s)\<rparr>, n))"
  using serve_tail_temp_store[of s send msgs n] set_outcome_tail[of rq k v s req send n]
  by (simp add: CraqServer_init_def)

theorem tail_commits_directly_witness:
  "temp_store (CraqServer_init ''d'' None (Some ''c'') ''d'') = [] \<and>
   temp_store (fst (serve (send_fail ConnectionError)
      [(client_set_msg ''k'' ''v'')\<lparr>mver := Some 1\<rparr>, client_get_msg ''k'', query_msg ''k'']
      (CraqCluster_create_server ''d'') ())) = [] \<and>
   CraqServer_set (send_fail ConnectionError)
      (KVSetRequest ((client_set_msg ''k'' ''v'')\<lparr>mver := Some 1\<rparr>))
      (CraqCluster_create_server ''d'') ()
     = (Inr ok_msg, (CraqCluster_create_server ''d'')\<lparr>store := [(''k'', (Some 1, ''v''))]\<rparr>, ())"
proof -
  let ?s = "CraqCluster_create_server ''d''"
  let ?rq = "KVSetRequest ((client_set_msg ''k'' ''v'')\<lparr>mver := Some 1\<rparr>)"
  have nx: "next ?s = None" by (simp add: cluster_defs)
  have ts: "temp_store ?s = []" by (simp add: cluster_defs)
  have st: "store ?s = []" by (simp add: cluster_defs)
  have k: "mkey (set_json_msg ?rq) = Some ''k''" by (simp add: msg_defs)
  have v: "mval (set_json_msg ?rq) = Some ''v''" by (simp add: msg_defs)
  have av: "assign_version ?s ?rq ''k'' = Inr ?rq"
    by (simp add: assign_version_def cluster_defs)
  have ver: "KVSetRequest_version ?rq = Some 1" by (simp add: KVSetRequest_version_def)
  let ?msgs = "[(client_set_msg ''k'' ''v'')\<lparr>mver := Some 1\<rparr>, client_get_msg ''k'',
          query_msg ''k'']"
  have "temp_store (CraqServer_init ''d'' None (Some ''c'') ''d'') = [] \<and>
      temp_store (fst (serve (send_fail ConnectionError) ?msgs ?s ())) = [] \<and>
      CraqServer_set (send_fail ConnectionError) ?rq ?s ()
        = (Inr ok_msg, ?s\<lparr>store := AList.update ''k'' (KVSetRequest_version ?rq, ''v'')
             (store ?s)\<rparr>, ())"
    using tail_commits_directly[where s = ?s and send = "send_fail ConnectionError"
        and n = "()" and rq = ?rq and req = ?rq and k = "''k''" and v = "''v''"
        and info = "''d''" and nxt = None and prv = "Some ''c''" and tail_name = "''d''"
        and msgs = ?msgs] nx ts k v av
    by blast
  then show ?thesis by (simp only: ver st AList.update.simps)
qed

text \<open>
  C7. On a chain linked as \<open>CraqCluster\<close> links it, whose tail holds no dirty version of
  the key, a client SET of \<open>v\<close> that the chain answers is followed, at every replica of the
  chain, by a GET that answers OK with \<open>v\<close> and changes no replica. The replicas may start
  in any state, dirty versions left by failed forwards included; nothing runs between the
  two requests.
\<close>

theorem set_then_get_round_trip:
  assumes "chain_wf chain" and "\<not> has_dirty (last chain) k"
    and "chain_req chain (client_set_msg k v) = (Inr r, chain')"
    and "i < length chain"
  shows "chain_req (drop i chain') (client_get_msg k) = (Inr (ok_val_msg v), drop i chain')"
proof -
  have lk: "linked chain" using assms(1) by (simp add: chain_wf_def split: list.splits)
  obtain x where c': "chain' = map (committed k x v) chain"
    using chain_set_committed[OF lk assms(3)] by blast
  let ?f = "committed k x v"
  obtain s rest where dr: "drop i chain = s # rest"
    using assms(4) by (cases "drop i chain") auto
  have ld: "linked (s # rest)" using linked_drop[OF lk assms(4)] dr by simp
  have last_dr: "last (s # rest) = last chain"
    using dr assms(4) by (metis last_drop)
  have lk': "linked (?f s # map ?f rest)"
    using ld linked_map_committed[of k x v "s # rest"] by simp
  have st: "map_of (store (?f s)) k = Some (x, v)" by (rule committed_store)
  have tl: "map ?f rest \<noteq> [] \<longrightarrow> map_of (store (last (map ?f rest))) k = Some (x, v)"
    by (simp add: last_map committed_store)
  have lone: "map ?f rest = [] \<longrightarrow> \<not> has_dirty (?f s) k"
  proof
    assume "map ?f rest = []"
    then have r: "rest = []" by simp
    then have nx: "next s = None" using ld by simp
    have "s = last chain" using last_dr r by simp
    then show "\<not> has_dirty (?f s) k" using assms(2) nx by (simp add: committed_tail_dirty)
  qed
  have nd: "map_of (versions_of (temp_store (?f s)) k) x = None"
  proof (cases "next s = None")
    case False
    then show ?thesis by (rule committed_dirty)
  next
    case True
    then have r: "rest = []" using ld by (cases rest) auto
    then have "s = last chain" using last_dr by simp
    then have "\<not> has_dirty (?f s) k" using assms(2) True by (simp add: committed_tail_dirty)
    then show ?thesis by (simp add: has_dirty_iff)
  qed
  have "chain_req (?f s # map ?f rest) (client_get_msg k)
      = (Inr (ok_val_msg v), ?f s # map ?f rest)"
    by (rule chain_get_committed[OF lk' st nd tl lone])
  moreover have "drop i chain' = ?f s # map ?f rest"
    by (simp add: c' drop_map dr)
  ultimately show ?thesis by simp
qed

theorem set_then_get_round_trip_witness:
  "chain_req (drop 0 (snd (chain_req chain_with_orphan (client_set_msg ''k'' ''y''))))
      (client_get_msg ''k'')
     = (Inr (ok_val_msg ''y''),
        drop 0 (snd (chain_req chain_with_orphan (client_set_msg ''k'' ''y'')))) \<and>
   chain_req (drop 2 (snd (chain_req chain_with_orphan (client_set_msg ''k'' ''y''))))
      (client_get_msg ''k'')
     = (Inr (ok_val_msg ''y''),
        drop 2 (snd (chain_req chain_with_orphan (client_set_msg ''k'' ''y'')))) \<and>
   has_dirty (hd (snd (chain_req chain_with_orphan (client_set_msg ''k'' ''y'')))) ''k''"
proof -
  have wf: "chain_wf chain_with_orphan"
    by (simp add: chain_wf_def chain_with_orphan_def head_after_failed_set_eq cluster_defs)
  have nd: "\<not> has_dirty (last chain_with_orphan) ''k''"
    by (simp add: chain_with_orphan_def cluster_defs has_dirty_def)
  have l0: "0 < length chain_with_orphan" and l2: "2 < length chain_with_orphan"
    by (simp_all add: chain_with_orphan_def)
  note ok = chain_with_orphan_set
  show ?thesis
    using set_then_get_round_trip[OF wf nd ok l0] set_then_get_round_trip[OF wf nd ok l2]
    by (simp add: ok has_dirty_def)
qed

text \<open>
  C8. The estimates of a new client are all \<open>0.0\<close>. A read goes to the first connection,
  in the order of the dictionary, whose estimate is the lowest: no estimate is lower and
  every earlier one is strictly higher. After a read that got a response, the estimate of
  the chosen connection is the float \<open>sample * 0.3 + previous * 0.7\<close>, the other estimates
  are unchanged, and the result is read off the status of the response.
\<close>

theorem client_reads_from_least_loaded:
  "(\<forall>c \<in> set cs. map_of (response_times (CraqClient_init fl cs)) c = Some (f_zero fl)) \<and>
   (response_times cl \<noteq> [] \<longrightarrow>
      (\<exists>i < length (response_times cl).
           CraqClient_get_least_loaded_server cl = Inr (fst (response_times cl ! i)) \<and>
           (\<forall>j < length (response_times cl).
              snd (response_times cl ! i) \<le> snd (response_times cl ! j)) \<and>
           (\<forall>j < i. snd (response_times cl ! i) < snd (response_times cl ! j)))) \<and>
   (CraqClient_get_least_loaded_server cl = Inr server \<longrightarrow>
    send server (client_get_msg k) = Inr (Some response) \<longrightarrow>
    map_of (response_times cl) server = Some previous \<longrightarrow>
      map_of (response_times (snd (CraqClient_get fl send elapsed cl k))) server
        = Some (f_add fl (f_mul fl elapsed (f_03 fl)) (f_mul fl previous (f_07 fl))) \<and>
      (\<forall>c. c \<noteq> server \<longrightarrow>
         map_of (response_times (snd (CraqClient_get fl send elapsed cl k))) c
           = map_of (response_times cl) c) \<and>
      fst (CraqClient_get fl send elapsed cl k) =
        (case mstatus response of
           None \<Rightarrow> Inl KeyError
         | Some st \<Rightarrow>
             if st = ''OK'' then
               (case mval response of None \<Rightarrow> Inl KeyError | Some v \<Rightarrow> Inr (True, Some v))
             else Inr (False, None)))"
proof (intro conjI impI)
  show "\<forall>c \<in> set cs. map_of (response_times (CraqClient_init fl cs)) c = Some (f_zero fl)"
    by (simp add: CraqClient_init_def init_times)
next
  assume "response_times cl \<noteq> []"
  then show "\<exists>i < length (response_times cl).
           CraqClient_get_least_loaded_server cl = Inr (fst (response_times cl ! i)) \<and>
           (\<forall>j < length (response_times cl).
              snd (response_times cl ! i) \<le> snd (response_times cl ! j)) \<and>
           (\<forall>j < i. snd (response_times cl ! i) < snd (response_times cl ! j))"
    by (rule least_loaded_first_min)
next
  assume a: "CraqClient_get_least_loaded_server cl = Inr server"
    "send server (client_get_msg k) = Inr (Some response)"
    "map_of (response_times cl) server = Some previous"
  note u = get_updates_estimate[where send = send and elapsed = elapsed and fl = fl, OF a]
  show "map_of (response_times (snd (CraqClient_get fl send elapsed cl k))) server
        = Some (f_add fl (f_mul fl elapsed (f_03 fl)) (f_mul fl previous (f_07 fl)))"
    by (simp add: u update_conv')
  show "\<forall>c. c \<noteq> server \<longrightarrow>
         map_of (response_times (snd (CraqClient_get fl send elapsed cl k))) c
           = map_of (response_times cl) c"
    by (simp add: u update_conv')
  show "fst (CraqClient_get fl send elapsed cl k) =
        (case mstatus response of
           None \<Rightarrow> Inl KeyError
         | Some st \<Rightarrow>
             if st = ''OK'' then
               (case mval response of None \<Rightarrow> Inl KeyError | Some v \<Rightarrow> Inr (True, Some v))
             else Inr (False, None))"
    using a by (simp add: CraqClient_get_def Let_def split: option.splits)
qed

theorem client_reads_from_least_loaded_witness:
  "map_of (response_times (CraqClient_init exact_ops [''a'', ''b'', ''c'', ''d''])) ''c'' = Some 0 \<and>
   CraqClient_get_least_loaded_server (CraqClient_init exact_ops [''a'', ''b'', ''c'', ''d''])
     = Inr ''a'' \<and>
   map_of (response_times client_after_read) ''a''
     = Some (5404319552844595 / 9007199254740992) \<and>
   map_of (response_times client_after_read) ''b'' = Some 0 \<and>
   fst (CraqClient_get exact_ops (send_ok_val ''v'') 2
          (CraqClient_init exact_ops [''a'', ''b'', ''c'', ''d'']) ''k'') = Inr (True, Some ''v'')"
proof -
  let ?cl = "CraqClient_init exact_ops [''a'', ''b'', ''c'', ''d'']"
  note w = client_reads_from_least_loaded[where cs = "[''a'', ''b'', ''c'', ''d'']"
      and fl = exact_ops and cl = ?cl and server = "''a''" and send = "send_ok_val ''v''"
      and k = "''k''" and response = "ok_val_msg ''v''" and previous = 0 and elapsed = 2]
  note rt = initial_client
  have ne: "response_times ?cl \<noteq> []" by (simp add: rt)
  note w1 = w[THEN conjunct1, rule_format]
  note w2 = w[THEN conjunct2, THEN conjunct1, rule_format]
  from w2[OF ne] obtain i where i: "i < length (response_times ?cl)"
    and srv: "CraqClient_get_least_loaded_server ?cl = Inr (fst (response_times ?cl ! i))"
    and lt: "\<forall>j < i. snd (response_times ?cl ! i) < snd (response_times ?cl ! j)"
    by blast
  have "i = 0 \<or> i = 1 \<or> i = 2 \<or> i = 3" using i by (auto simp add: rt)
  then have "i = 0"
    using lt[rule_format, of 0] by (auto simp add: rt)
  then have a: "CraqClient_get_least_loaded_server ?cl = Inr ''a''"
    using srv by (simp add: rt)
  have s: "send_ok_val ''v'' ''a'' (client_get_msg ''k'') = Inr (Some (ok_val_msg ''v''))"
    by (simp add: send_ok_val_def)
  have p: "map_of (response_times ?cl) ''a'' = Some 0" by (simp add: rt)
  note w3 = w[THEN conjunct2, THEN conjunct2, rule_format, OF a s p]
  have c: "''c'' \<in> set [''a'', ''b'', ''c'', ''d'']" by simp
  have ba: "''b'' \<noteq> ''a''" by simp
  note e1 = w1[OF c]
  note e2 = w3[THEN conjunct1]
  note e3 = w3[THEN conjunct2, THEN conjunct1, rule_format, OF ba]
  note e4 = w3[THEN conjunct2, THEN conjunct2]
  have z: "f_zero exact_ops = 0" by (simp add: exact_ops_def)
  have val: "f_add exact_ops (f_mul exact_ops 2 (f_03 exact_ops))
      (f_mul exact_ops 0 (f_07 exact_ops)) = 5404319552844595 / 9007199254740992"
    by (simp add: exact_ops_def)
  show ?thesis using e1 e2 e3 e4 a
    by (simp add: client_after_read_def rt z val msg_defs)
qed

text \<open>
  C9. The GET handler and the QUERY handler return the replica as it was, whatever the
  transport does; so does the dispatcher on every message whose type is not SET.
\<close>

theorem get_query_frame:
  "server_of (CraqServer_get send req s n) = s \<and>
   server_of (CraqServer_query send qreq s n) = s \<and>
   (mtype msg \<noteq> Some ''SET'' \<longrightarrow> server_of (CraqServer_process_req send msg s n) = s)"
  using get_frame[of send req s n] query_frame[of send qreq s n]
  by (auto simp add: CraqServer_process_req_def get_frame query_frame split: sum.splits)
    (simp_all add: server_of_def)

theorem get_query_frame_witness:
  "server_of (CraqServer_get (send_reply (ver_msg (Some 1))) (KVGetRequest (client_get_msg ''k''))
      head_with_orphan ()) = head_with_orphan \<and>
   server_of (CraqServer_query (send_reply (ver_msg (Some 1))) (KVQueryRequest (query_msg ''k''))
      head_with_orphan ()) = head_with_orphan \<and>
   server_of (CraqServer_process_req (send_reply (ver_msg (Some 1))) (client_get_msg ''k'')
      head_with_orphan ()) = head_with_orphan"
proof -
  have ty: "mtype (client_get_msg ''k'') \<noteq> Some ''SET''" by (simp add: msg_defs)
  show ?thesis
    using get_query_frame[where send = "send_reply (ver_msg (Some 1))"
        and req = "KVGetRequest (client_get_msg ''k'')"
        and qreq = "KVQueryRequest (query_msg ''k'')" and s = head_with_orphan and n = "()"
        and msg = "client_get_msg ''k''"]
    by (simp add: ty)
qed

text \<open>
  C10. A SET that reaches the head with a \<open>"ver"\<close> field is handled as the same SET
  without it. With \<open>c\<close> the current version of the key, the head forwards the request
  with the version \<open>c + 1\<close> in place of the supplied one; when the forward returns it
  stores \<open>(c + 1, value)\<close> as the clean entry, deletes the dirty entry and answers OK, when
  the forward raises it keeps the dirty entry of \<open>c + 1\<close>, and without successor it stores
  \<open>(c + 1, value)\<close> and answers OK.
\<close>

theorem head_overwrites_supplied_version:
  assumes "prev s = None"
  shows
    "CraqServer_process_req send (m\<lparr>mtype := Some ''SET'', mver := Some x\<rparr>) s n
       = CraqServer_process_req send (m\<lparr>mtype := Some ''SET'', mver := None\<rparr>) s n \<and>
     (mkey m = Some k \<and> mval m = Some v \<and> current_version s k = Inr (Some c) \<longrightarrow>
        CraqServer_process_req send (m\<lparr>mtype := Some ''SET'', mver := Some x\<rparr>) s n =
          (if next s \<noteq> None then
             (case send (name s) (next s) (m\<lparr>mtype := Some ''SET'', mver := Some (c + 1)\<rparr>) n of
                (Inl e, n') \<Rightarrow>
                  (Inl e, s\<lparr>temp_store := dirty_put k (Some (c + 1)) v (temp_store s)\<rparr>, n')
              | (Inr r, n') \<Rightarrow>
                  (Inr ok_msg,
                   s\<lparr>temp_store :=
                        dirty_del k (Some (c + 1)) (dirty_put k (Some (c + 1)) v (temp_store s)),
                      store := AList.update k (Some (c + 1), v) (store s)\<rparr>,
                   n'))
           else (Inr ok_msg, s\<lparr>store := AList.update k (Some (c + 1), v) (store s)\<rparr>, n)))"
proof (intro conjI impI)
  show "CraqServer_process_req send (m\<lparr>mtype := Some ''SET'', mver := Some x\<rparr>) s n
       = CraqServer_process_req send (m\<lparr>mtype := Some ''SET'', mver := None\<rparr>) s n"
    using assms
    by (simp add: CraqServer_process_req_def KVSetRequest_init_def CraqServer_set_def
      KVSetRequest_key_def KVSetRequest_val_def msg_index_key_def msg_index_val_def
      assign_version_def KVSetRequest_set_version_def
      split: sum.splits option.splits)
next
  assume a: "mkey m = Some k \<and> mval m = Some v \<and> current_version s k = Inr (Some c)"
  let ?m = "m\<lparr>mtype := Some ''SET'', mver := Some x\<rparr>"
  let ?rq = "KVSetRequest ?m"
  let ?req = "KVSetRequest (m\<lparr>mtype := Some ''SET'', mver := Some (c + 1)\<rparr>)"
  have ps: "CraqServer_process_req send ?m s n = CraqServer_set send ?rq s n"
    using a by (simp add: process_set[of ?m k v])
  have k: "mkey (set_json_msg ?rq) = Some k" and v: "mval (set_json_msg ?rq) = Some v"
    using a by simp_all
  have av: "assign_version s ?rq k = Inr ?req"
    using assms a by (simp add: assign_version_def KVSetRequest_set_version_def)
  have ver: "KVSetRequest_version ?req = Some (c + 1)"
    by (simp add: KVSetRequest_version_def)
  show "CraqServer_process_req send ?m s n =
          (if next s \<noteq> None then
             (case send (name s) (next s) (m\<lparr>mtype := Some ''SET'', mver := Some (c + 1)\<rparr>) n of
                (Inl e, n') \<Rightarrow>
                  (Inl e, s\<lparr>temp_store := dirty_put k (Some (c + 1)) v (temp_store s)\<rparr>, n')
              | (Inr r, n') \<Rightarrow>
                  (Inr ok_msg,
                   s\<lparr>temp_store :=
                        dirty_del k (Some (c + 1)) (dirty_put k (Some (c + 1)) v (temp_store s)),
                      store := AList.update k (Some (c + 1), v) (store s)\<rparr>,
                   n'))
           else (Inr ok_msg, s\<lparr>store := AList.update k (Some (c + 1), v) (store s)\<rparr>, n))"
  proof (cases "next s = None")
    case True
    show ?thesis using set_outcome_tail[OF k v av True, of send n] True
      by (simp add: ps ver)
  next
    case False
    obtain res n' where snd: "send (name s) (next s) (set_json_msg ?req) n = (res, n')"
      by (cases "send (name s) (next s) (set_json_msg ?req) n") auto
    show ?thesis
      using set_outcome_forward[where send = send, OF k v av False snd] False snd
      by (cases res) (simp_all add: ps ver)
  qed
qed

theorem head_overwrites_supplied_version_witness:
  "CraqServer_process_req (send_log ok_msg) ((client_set_msg ''k'' ''v'')\<lparr>mver := Some 7\<rparr>)
      (CraqCluster_create_server ''a'') []
     = CraqServer_process_req (send_log ok_msg) (client_set_msg ''k'' ''v'')
         (CraqCluster_create_server ''a'') [] \<and>
   CraqServer_process_req (send_log ok_msg) ((client_set_msg ''k'' ''v'')\<lparr>mver := Some 7\<rparr>)
      (CraqCluster_create_server ''a'') []
     = (Inr ok_msg,
        (CraqCluster_create_server ''a'')
          \<lparr>temp_store := [(''k'', [])], store := [(''k'', (Some 1, ''v''))]\<rparr>,
        [(''a'', Some ''b'', (client_set_msg ''k'' ''v'')\<lparr>mver := Some 1\<rparr>)])"
proof -
  let ?s = "CraqCluster_create_server ''a''"
  let ?m = "client_set_msg ''k'' ''v''"
  have pv: "prev ?s = None" by (simp add: cluster_defs)
  have nx: "next ?s \<noteq> None" by (simp add: cluster_defs)
  have cv: "current_version ?s ''k'' = Inr (Some 0)"
    by (simp add: current_version_def has_dirty_def cluster_defs)
  have k: "mkey ?m = Some ''k''" and v: "mval ?m = Some ''v''" by (simp_all add: msg_defs)
  have m: "?m\<lparr>mtype := Some ''SET'', mver := None\<rparr> = ?m"
    "?m\<lparr>mtype := Some ''SET'', mver := Some 7\<rparr> = ?m\<lparr>mver := Some 7\<rparr>"
    "?m\<lparr>mtype := Some ''SET'', mver := Some (0 + 1)\<rparr> = ?m\<lparr>mver := Some 1\<rparr>"
    by (simp_all add: msg_defs)
  have sl: "send_log ok_msg (name ?s) (next ?s) (?m\<lparr>mver := Some 1\<rparr>) []
      = (Inr ok_msg, [(''a'', Some ''b'', ?m\<lparr>mver := Some 1\<rparr>)])"
    by (simp add: send_log_def cluster_defs)
  have ts: "dirty_del ''k'' (Some (0 + 1)) (dirty_put ''k'' (Some (0 + 1)) ''v'' (temp_store ?s))
      = [(''k'', [])]"
    by (simp add: dirty_del_def dirty_put_def versions_of_def cluster_defs)
  have st: "AList.update ''k'' (Some (0 + 1), ''v'') (store ?s) = [(''k'', (Some 1, ''v''))]"
    by (simp add: cluster_defs)
  note w = head_overwrites_supplied_version[where s = ?s and send = "send_log ok_msg"
      and n = "[]" and m = ?m and x = 7 and k = "''k''" and v = "''v''" and c = 0, OF pv]
  note w1 = w[THEN conjunct1]
  note w2 = w[THEN conjunct2, rule_format, OF conjI[OF k conjI[OF v cv]]]
  show ?thesis using w1 w2 nx by (simp only: m sl ts st if_True prod.case sum.case) simp
qed

end
